theory Spec2Isabelle
  imports Main "HOL-Library.Word"
begin

unbundle bit_operations_syntax

section \<open>MiniVSFS: the image builder and the file adder\<close>

text \<open>
  The two programs verified here are \<^verbatim>\<open>Fresh version 2.1/mkfs_builder.c\<close> (format) and
  \<^verbatim>\<open>OS_Project_Update2.0/mkfs_adder.c\<close> (add a file). Both keep the whole image in one
  byte buffer and overlay packed structs on it, so the model is a byte list with
  little-endian field accesses at the offsets the packed structs fix.

  Conventions of the model:
  \<^item> an image, and every local struct, is a \<open>u8 list\<close>; a pointer is an offset into it;
  \<^item> \<open>uint16_t\<close>, \<open>uint32_t\<close>, \<open>uint64_t\<close> are words, so every C operation wraps as
    in the source; loop counters that are bounded by a word are natural numbers;
  \<^item> fields are stored least significant byte first (the structs are written by
    \<open>memcpy\<close> on the host; the tools are built for little-endian Linux hosts);
  \<^item> \<open>time(NULL)\<close> is a parameter of each program;
  \<^item> the environment always succeeds: \<open>fopen\<close>, \<open>malloc\<close>, \<open>fread\<close> and \<open>fwrite\<close> do
    not fail, and the source file does not change between \<open>stat\<close> and \<open>fread\<close>;
  \<^item> an access outside the buffer is undefined behaviour in C. The model reads a
    shortened byte string there and drops the write; theorems about the adder assume
    a layout that keeps every access in range.
\<close>

type_synonym u8 = "8 word"
type_synonym u16 = "16 word"
type_synonym u32 = "32 word"
type_synonym u64 = "64 word"
type_synonym image = "u8 list"

subsection \<open>Byte buffers\<close>

definition load :: "image \<Rightarrow> nat \<Rightarrow> nat \<Rightarrow> u8 list" where
  "load m a n = take n (drop a m)"

text \<open>\<open>memcpy(m + a, bs, length bs)\<close>; nothing is written when the range leaves the buffer.\<close>

definition store :: "image \<Rightarrow> nat \<Rightarrow> u8 list \<Rightarrow> image" where
  "store m a bs = (if a + length bs \<le> length m then take a m @ bs @ drop (a + length bs) m else m)"

text \<open>\<open>memset(m + a, 0, n)\<close>\<close>

definition memset0 :: "image \<Rightarrow> nat \<Rightarrow> nat \<Rightarrow> image" where
  "memset0 m a n = store m a (replicate n 0)"

primrec le_bytes :: "nat \<Rightarrow> 'a::len word \<Rightarrow> u8 list" where
  "le_bytes 0 w = []"
| "le_bytes (Suc n) w = ucast w # le_bytes n (drop_bit 8 w)"

primrec le_word :: "u8 list \<Rightarrow> 'a::len word" where
  "le_word [] = 0"
| "le_word (b # bs) = ucast b OR push_bit 8 (le_word bs)"

definition rd8 :: "image \<Rightarrow> nat \<Rightarrow> u8" where
  "rd8 m a = le_word (load m a 1)"

definition rd16 :: "image \<Rightarrow> nat \<Rightarrow> u16" where
  "rd16 m a = le_word (load m a 2)"

definition rd32 :: "image \<Rightarrow> nat \<Rightarrow> u32" where
  "rd32 m a = le_word (load m a 4)"

definition rd64 :: "image \<Rightarrow> nat \<Rightarrow> u64" where
  "rd64 m a = le_word (load m a 8)"

definition wr8 :: "image \<Rightarrow> nat \<Rightarrow> u8 \<Rightarrow> image" where
  "wr8 m a v = store m a [v]"

definition wr16 :: "image \<Rightarrow> nat \<Rightarrow> u16 \<Rightarrow> image" where
  "wr16 m a v = store m a (le_bytes 2 v)"

definition wr32 :: "image \<Rightarrow> nat \<Rightarrow> u32 \<Rightarrow> image" where
  "wr32 m a v = store m a (le_bytes 4 v)"

definition wr64 :: "image \<Rightarrow> nat \<Rightarrow> u64 \<Rightarrow> image" where
  "wr64 m a v = store m a (le_bytes 8 v)"

subsection \<open>Checksums (both programs)\<close>

text \<open>
  \<^verbatim>\<open>for(int j=0;j<8;j++) c = (c&1)?(0xEDB88320u^(c>>1)):(c>>1);\<close>
\<close>

definition crc_round :: "u32 \<Rightarrow> u32" where
  "crc_round c = (if c AND 1 \<noteq> 0 then 0xEDB88320 XOR drop_bit 1 c else drop_bit 1 c)"

definition CRC32_TAB :: "u32 \<Rightarrow> u32" where
  "CRC32_TAB i = (crc_round ^^ 8) i"

text \<open>
  \<^verbatim>\<open>c=0xFFFFFFFFu; for(i<n) c = CRC32_TAB[(c^p[i])&0xFF] ^ (c>>8); return c ^ 0xFFFFFFFFu;\<close>
\<close>

definition crc32 :: "u8 list \<Rightarrow> u32" where
  "crc32 p = fold (\<lambda>b c. CRC32_TAB ((c XOR ucast b) AND 0xFF) XOR drop_bit 8 c) p 0xFFFFFFFF
             XOR 0xFFFFFFFF"

text \<open>
  \<^verbatim>\<open>sb->checksum = 0; block[BS] = {0}; memcpy(block, sb, 116);
  s = crc32(block, BS - 4); sb->checksum = s;\<close>
  The argument is the 116-byte struct.
\<close>

definition superblock_crc_finalize :: "u8 list \<Rightarrow> u8 list" where
  "superblock_crc_finalize sb =
     (let sb0 = wr32 sb 112 0;
          block = store (replicate 4096 0) 0 sb0;
          s = crc32 (load block 0 (4096 - 4))
      in wr32 sb0 112 s)"

text \<open>
  \<^verbatim>\<open>memcpy(tmp, ino, 128); memset(&tmp[120], 0, 8); c = crc32(tmp, 120);
  ino->inode_crc = (uint64_t)c;\<close>
  The inode is the 128 bytes at offset \<open>ino\<close> of the buffer.
\<close>

definition inode_crc_finalize :: "image \<Rightarrow> nat \<Rightarrow> image" where
  "inode_crc_finalize m ino =
     (let tmp = memset0 (load m ino 128) 120 8;
          c = crc32 (load tmp 0 120)
      in wr64 m (ino + 120) (ucast c))"

text \<open>\<^verbatim>\<open>x = 0; for (i < 63) x ^= p[i]; de->checksum = x;\<close> on a 64-byte struct.\<close>

definition dirent_checksum_finalize :: "u8 list \<Rightarrow> u8 list" where
  "dirent_checksum_finalize de = wr8 de 63 (fold (\<lambda>b x. x XOR b) (load de 0 63) 0)"

subsection \<open>Bitmaps\<close>

text \<open>\<^verbatim>\<open>(bmap[idx >> 3] >> (idx & 7)) & 1u\<close>\<close>

definition test_bit :: "image \<Rightarrow> nat \<Rightarrow> nat \<Rightarrow> bool" where
  "test_bit m bmap idx = (drop_bit (idx mod 8) (rd8 m (bmap + idx div 8)) AND 1 \<noteq> 0)"

text \<open>\<^verbatim>\<open>bmap[idx >> 3] |= (uint8_t)(1u << (idx & 7))\<close>\<close>

definition set_bit_c :: "image \<Rightarrow> nat \<Rightarrow> nat \<Rightarrow> image" where
  "set_bit_c m bmap idx =
     wr8 m (bmap + idx div 8) (rd8 m (bmap + idx div 8) OR push_bit (idx mod 8) 1)"

subsection \<open>Superblock, inode and directory-entry fields\<close>

text \<open>Offsets of the packed \<open>superblock_t\<close> (116 bytes).\<close>

definition sb_magic :: "image \<Rightarrow> u32" where "sb_magic m = rd32 m 0"
definition sb_version :: "image \<Rightarrow> u32" where "sb_version m = rd32 m 4"
definition sb_block_size :: "image \<Rightarrow> u32" where "sb_block_size m = rd32 m 8"
definition sb_total_blocks :: "image \<Rightarrow> u64" where "sb_total_blocks m = rd64 m 12"
definition sb_inode_count :: "image \<Rightarrow> u64" where "sb_inode_count m = rd64 m 20"
definition sb_inode_bitmap_start :: "image \<Rightarrow> u64" where "sb_inode_bitmap_start m = rd64 m 28"
definition sb_inode_bitmap_blocks :: "image \<Rightarrow> u64" where "sb_inode_bitmap_blocks m = rd64 m 36"
definition sb_data_bitmap_start :: "image \<Rightarrow> u64" where "sb_data_bitmap_start m = rd64 m 44"
definition sb_data_bitmap_blocks :: "image \<Rightarrow> u64" where "sb_data_bitmap_blocks m = rd64 m 52"
definition sb_inode_table_start :: "image \<Rightarrow> u64" where "sb_inode_table_start m = rd64 m 60"
definition sb_inode_table_blocks :: "image \<Rightarrow> u64" where "sb_inode_table_blocks m = rd64 m 68"
definition sb_data_region_start :: "image \<Rightarrow> u64" where "sb_data_region_start m = rd64 m 76"
definition sb_data_region_blocks :: "image \<Rightarrow> u64" where "sb_data_region_blocks m = rd64 m 84"
definition sb_root_inode :: "image \<Rightarrow> u64" where "sb_root_inode m = rd64 m 92"
definition sb_mtime_epoch :: "image \<Rightarrow> u64" where "sb_mtime_epoch m = rd64 m 100"
definition sb_flags :: "image \<Rightarrow> u32" where "sb_flags m = rd32 m 108"
definition sb_checksum :: "image \<Rightarrow> u32" where "sb_checksum m = rd32 m 112"

text \<open>Offsets of the packed \<open>inode_t\<close> (128 bytes); \<open>ino\<close> is the address of the inode.\<close>

definition ino_mode :: "image \<Rightarrow> nat \<Rightarrow> u16" where "ino_mode m ino = rd16 m ino"
definition ino_links :: "image \<Rightarrow> nat \<Rightarrow> u16" where "ino_links m ino = rd16 m (ino + 2)"
definition ino_size_bytes :: "image \<Rightarrow> nat \<Rightarrow> u64" where "ino_size_bytes m ino = rd64 m (ino + 12)"
definition ino_direct :: "image \<Rightarrow> nat \<Rightarrow> nat \<Rightarrow> u32" where
  "ino_direct m ino d = rd32 m (ino + 44 + 4 * d)"

text \<open>Offsets of the packed \<open>dirent64_t\<close> (64 bytes); \<open>e\<close> is the address of the entry.\<close>

definition de_inode_no :: "image \<Rightarrow> nat \<Rightarrow> u32" where "de_inode_no m e = rd32 m e"
definition de_type :: "image \<Rightarrow> nat \<Rightarrow> u8" where "de_type m e = rd8 m (e + 4)"
definition de_name :: "image \<Rightarrow> nat \<Rightarrow> u8 list" where "de_name m e = load m (e + 5) 58"
definition de_checksum :: "image \<Rightarrow> nat \<Rightarrow> u8" where "de_checksum m e = rd8 m (e + 63)"

subsection \<open>Exit states\<close>

text \<open>
  Every \<open>return\<close> of the two \<open>main\<close> functions that does not depend on the environment.
  The specification's names: exit 3 of the adder is its \<open>FormatError\<close>, exit 5 its
  \<open>FileTooLargeError\<close>, exit 6 its \<open>NoSpaceError\<close>, exit 7 its \<open>DirectoryFullError\<close>.
\<close>

datatype error =
    BadArguments
  | ImageTooSmall
  | InvalidImageSize
  | NotMiniVSFS
  | TotalBlocksMismatch
  | StatFailed
  | NotRegularFile
  | FileTooLarge
  | NoFreeInodes
  | NotEnoughDataBlocks
  | ReadFailed
  | RootNoFreePointer
  | NoFreeBlockForRoot

fun exit_code :: "error \<Rightarrow> nat" where
  "exit_code BadArguments = 2"
| "exit_code ImageTooSmall = 3"
| "exit_code InvalidImageSize = 1"
| "exit_code NotMiniVSFS = 3"
| "exit_code TotalBlocksMismatch = 3"
| "exit_code StatFailed = 4"
| "exit_code NotRegularFile = 4"
| "exit_code FileTooLarge = 5"
| "exit_code NoFreeInodes = 6"
| "exit_code NotEnoughDataBlocks = 6"
| "exit_code ReadFailed = 4"
| "exit_code RootNoFreePointer = 7"
| "exit_code NoFreeBlockForRoot = 7"

subsection \<open>\<^verbatim>\<open>mkfs_builder.c\<close>\<close>

text \<open>The range checks of \<open>parse_cli\<close>; \<open>True\<close> when it returns 0.\<close>

definition parse_cli :: "u32 \<Rightarrow> u32 \<Rightarrow> bool" where
  "parse_cli size_kib inodes =
     (\<not> (size_kib < 180 \<or> size_kib > 4096 \<or> size_kib mod 4 \<noteq> 0) \<and>
      \<not> (inodes < 128 \<or> inodes > 512))"

text \<open>\<^verbatim>\<open>total_blocks = ((uint64_t)cli.size_kib * 1024u) / BS\<close>\<close>

definition total_blocks_of :: "u32 \<Rightarrow> u64" where
  "total_blocks_of size_kib = (ucast size_kib * 1024) div 4096"

text \<open>\<^verbatim>\<open>inodes_per_blk = BS / INODE_SIZE\<close>\<close>

definition inodes_per_blk :: u64 where
  "inodes_per_blk = 4096 div 128"

text \<open>\<^verbatim>\<open>inode_tbl_blks = (cli.inodes + inodes_per_blk - 1) / inodes_per_blk\<close>\<close>

definition inode_tbl_blks_of :: "u32 \<Rightarrow> u64" where
  "inode_tbl_blks_of inodes = (ucast inodes + inodes_per_blk - 1) div inodes_per_blk"

text \<open>Lines 175 to 194: the local \<open>superblock_t sb\<close>.\<close>

definition build_superblock :: "u64 \<Rightarrow> u32 \<Rightarrow> u64 \<Rightarrow> u64 \<Rightarrow> u8 list" where
  "build_superblock total_blocks inodes inode_tbl_blks now =
     (let inode_table_start = 3;
          data_region_start = 3 + inode_tbl_blks;
          data_region_blocks = total_blocks - data_region_start;
          sb = replicate 116 0;
          sb = wr32 sb 0 0x4D565346;
          sb = wr32 sb 4 1;
          sb = wr32 sb 8 4096;
          sb = wr64 sb 12 total_blocks;
          sb = wr64 sb 20 (ucast inodes);
          sb = wr64 sb 28 1;
          sb = wr64 sb 36 1;
          sb = wr64 sb 44 2;
          sb = wr64 sb 52 1;
          sb = wr64 sb 60 inode_table_start;
          sb = wr64 sb 68 inode_tbl_blks;
          sb = wr64 sb 76 data_region_start;
          sb = wr64 sb 84 data_region_blocks;
          sb = wr64 sb 92 1;
          sb = wr64 sb 100 now;
          sb = wr32 sb 108 0
      in superblock_crc_finalize sb)"

text \<open>Lines 213 to 220: the local \<open>inode_t root\<close>; mode \<open>0040000\<close> is octal.\<close>

definition build_root :: "u64 \<Rightarrow> u64 \<Rightarrow> u8 list" where
  "build_root data_region_start now =
     (let root = replicate 128 0;
          root = wr16 root 0 0x4000;
          root = wr16 root 2 2;
          root = wr32 root 4 0;
          root = wr32 root 8 0;
          root = wr64 root 36 now;
          root = wr64 root 28 now;
          root = wr64 root 20 now;
          root = wr64 root 12 (2 * 64);
          root = wr32 root 44 (ucast (data_region_start + 0))
      in inode_crc_finalize root 0)"

text \<open>Lines 228 to 234 and 239 to 242: the entries \<open>.\<close> and \<open>..\<close>.\<close>

definition dot_entry :: "u8 list" where
  "dot_entry =
     (let de = replicate 64 0;
          de = wr32 de 0 1;
          de = wr8 de 4 2;
          de = memset0 de 5 58;
          de = wr8 de 5 (of_char CHR ''.'')
      in dirent_checksum_finalize de)"

definition dotdot_entry :: "u8 list" where
  "dotdot_entry =
     (let de = replicate 64 0;
          de = wr32 de 0 1;
          de = wr8 de 4 2;
          de = wr8 de 5 (of_char CHR ''.'');
          de = wr8 de 6 (of_char CHR ''.'')
      in dirent_checksum_finalize de)"

text \<open>
  \<open>main\<close> of the builder. \<open>now_sb\<close> and \<open>now_root\<close> are the two values of \<open>time(NULL)\<close>.
  \<open>BS * inode_table_start\<close> is a 64-bit product, \<open>BS * root.direct[0]\<close> a 32-bit one.
\<close>

definition mkfs_builder_main :: "u32 \<Rightarrow> u32 \<Rightarrow> u64 \<Rightarrow> u64 \<Rightarrow> error + image" where
  "mkfs_builder_main size_kib inodes now_sb now_root =
     (if \<not> parse_cli size_kib inodes then Inl BadArguments
      else
        let total_blocks = total_blocks_of size_kib;
            inode_tbl_blks = inode_tbl_blks_of inodes
        in if total_blocks < 3 + inode_tbl_blks + 1 then Inl ImageTooSmall
           else
             let img = replicate (unat total_blocks * 4096) 0;
                 blk0 = 4096 * 0;
                 blk1 = 4096 * 1;
                 blk2 = 4096 * 2;
                 inode_table_start = (3 :: u64);
                 data_region_start = 3 + inode_tbl_blks;
                 sb = build_superblock total_blocks inodes inode_tbl_blks now_sb;
                 img = memset0 img blk0 4096;
                 img = store img blk0 sb;
                 img = memset0 img blk1 4096;
                 img = memset0 img blk2 4096;
                 img = set_bit_c img blk1 0;
                 img = set_bit_c img blk2 0;
                 itbl = unat (4096 * inode_table_start);
                 img = memset0 img itbl (unat inode_tbl_blks * 4096);
                 root = build_root data_region_start now_root;
                 img = store img itbl root;
                 rootblk = unat (4096 * rd32 root 44);
                 img = memset0 img rootblk 4096;
                 img = store img (rootblk + 0 * 64) dot_entry;
                 img = store img (rootblk + 1 * 64) dotdot_entry
             in Inr img)"

subsection \<open>\<^verbatim>\<open>mkfs_adder.c\<close>\<close>

text \<open>
  The file named by \<open>--file\<close>: whether \<open>stat\<close> succeeds, whether it is a regular
  file, and its bytes (\<open>st_size\<close> is their number).
\<close>

record source =
  src_exists :: bool
  src_regular :: bool
  src_bytes :: "u8 list"

text \<open>The state of a run that returns 0: the image written and the indices it allocated.\<close>

record added =
  out_img :: image
  new_ino_idx :: nat
  db_idxs :: "nat list"
  free_idx :: "nat option"

text \<open>\<^verbatim>\<open>s = strrchr(path, '/'); return s ? s+1 : path;\<close>\<close>

definition base_name :: "string \<Rightarrow> string" where
  "base_name path =
     (if CHR ''/'' \<in> set path then rev (takeWhile (\<lambda>c. c \<noteq> CHR ''/'') (rev path)) else path)"

text \<open>Lines 164 to 174.\<close>

definition validate :: "image \<Rightarrow> error option" where
  "validate img =
     (if length img mod 4096 \<noteq> 0 then Some InvalidImageSize
      else if sb_magic img \<noteq> 0x4D565346 \<or> sb_version img \<noteq> 1 \<or> sb_block_size img \<noteq> 4096
        then Some NotMiniVSFS
      else if sb_total_blocks img \<noteq> of_nat (length img div 4096) then Some TotalBlocksMismatch
      else None)"

text \<open>\<^verbatim>\<open>need_blocks = (uint32_t)((fsize + BS - 1) / BS)\<close>\<close>

definition need_blocks_of :: "u64 \<Rightarrow> u32" where
  "need_blocks_of fsize = ucast ((fsize + 4096 - 1) div 4096)"

text \<open>
  Lines 191 to 194: the first index below \<open>(uint32_t)sb->inode_count\<close> whose bit is
  clear; \<open>None\<close> is \<open>UINT32_MAX\<close>.
\<close>

definition find_free_inode :: "image \<Rightarrow> nat \<Rightarrow> nat option" where
  "find_free_inode m inode_bmap =
     find (\<lambda>i. \<not> test_bit m inode_bmap i) [0..<unat (ucast (sb_inode_count m) :: u32)]"

text \<open>
  Lines 204 to 206: the indices below \<open>(uint32_t)sb->data_region_blocks\<close> whose bit is
  clear, in ascending order, until \<open>need_blocks\<close> are found.
\<close>

definition find_free_blocks :: "image \<Rightarrow> nat \<Rightarrow> nat \<Rightarrow> nat list" where
  "find_free_blocks m data_bmap need =
     take need (filter (\<lambda>i. \<not> test_bit m data_bmap i)
                       [0..<unat (ucast (sb_data_region_blocks m) :: u32)])"

text \<open>Lines 217 to 227; \<open>ino\<close> points into the image. Mode \<open>0100000\<close> is octal.\<close>

definition build_inode :: "image \<Rightarrow> nat \<Rightarrow> u64 \<Rightarrow> u64 \<Rightarrow> nat \<Rightarrow> nat list \<Rightarrow> image" where
  "build_inode m ino fsize now need_blocks dbs =
     (let m = memset0 m ino 128;
          m = wr16 m ino 0x8000;
          m = wr16 m (ino + 2) 1;
          m = wr32 m (ino + 4) 0;
          m = wr32 m (ino + 8) 0;
          m = wr64 m (ino + 12) fsize;
          m = wr64 m (ino + 36) now;
          m = wr64 m (ino + 28) now;
          m = wr64 m (ino + 20) now;
          m = foldl (\<lambda>m i. wr32 m (ino + 44 + 4 * i)
                               (ucast (sb_data_region_start m + of_nat (dbs ! i))))
                    m [0..<need_blocks]
      in inode_crc_finalize m ino)"

text \<open>
  Lines 233 to 240. \<open>rest\<close> is what \<open>ff\<close> has not yet delivered; \<open>None\<close> is the short
  read that returns 4.
\<close>

fun write_file_data :: "image \<Rightarrow> nat \<Rightarrow> nat \<Rightarrow> u64 \<Rightarrow> u8 list \<Rightarrow> nat list \<Rightarrow> image option" where
  "write_file_data m ino need_blocks fsize rest [] = Some m"
| "write_file_data m ino need_blocks fsize rest (i # is) =
     (let blk = unat (4096 * ino_direct m ino i);
          m = memset0 m blk 4096;
          toread = (if i + 1 < need_blocks then 4096 else unat (fsize - of_nat i * 4096))
      in if toread > 0 \<and> length (take toread rest) \<noteq> toread then None
         else write_file_data (store m blk (take toread rest)) ino need_blocks fsize
                (drop toread rest) is)"

text \<open>Lines 248 to 251.\<close>

definition namebuf_of :: "string \<Rightarrow> u8 list" where
  "namebuf_of base =
     (let namebuf = replicate 58 0;
          namelen = (if length base > 58 then 58 else length base)
      in store namebuf 0 (map of_char (take namelen base)))"

definition namelen_of :: "string \<Rightarrow> nat" where
  "namelen_of base = (if length base > 58 then 58 else length base)"

text \<open>Lines 260 to 264 and 299 to 303: the local \<open>dirent64_t ne\<close>.\<close>

definition new_dirent :: "u32 \<Rightarrow> u8 list \<Rightarrow> nat \<Rightarrow> u8 list" where
  "new_dirent new_ino_no namebuf namelen =
     (let ne = replicate 64 0;
          ne = wr32 ne 0 new_ino_no;
          ne = wr8 ne 4 1;
          ne = store ne 5 (load namebuf 0 namelen)
      in dirent_checksum_finalize ne)"

text \<open>Lines 266 to 269 and 306 to 309; \<open>root\<close> points into the image.\<close>

definition update_root :: "image \<Rightarrow> nat \<Rightarrow> u64 \<Rightarrow> image" where
  "update_root m root now =
     (let m = wr64 m (root + 12) (ino_size_bytes m root + 64);
          m = wr64 m (root + 36) now;
          m = wr64 m (root + 28) now;
          m = wr16 m (root + 2) (ino_links m root + 1)
      in inode_crc_finalize m root)"

text \<open>
  Lines 254 to 273, the search only: the address of the first entry with
  \<open>inode_no == 0\<close> in the blocks of the root's leading non-zero direct pointers.
\<close>

fun find_slot :: "image \<Rightarrow> nat \<Rightarrow> nat list \<Rightarrow> nat option" where
  "find_slot m root [] = None"
| "find_slot m root (d # ds) =
     (if ino_direct m root d = 0 then None
      else
        let blk = unat (4096 * ino_direct m root d)
        in case find (\<lambda>i. de_inode_no m (blk + i * 64) = 0) [0..<64] of
             Some i \<Rightarrow> Some (blk + i * 64)
           | None \<Rightarrow> find_slot m root ds)"

text \<open>
  Lines 245 to 311: the entry goes into the slot found, or into a fresh block
  registered at the root's first zero direct pointer.
\<close>

definition link_root ::
  "image \<Rightarrow> nat \<Rightarrow> nat \<Rightarrow> u32 \<Rightarrow> string \<Rightarrow> u64 \<Rightarrow> (error \<times> image) + (image \<times> nat option)" where
  "link_root m itbl data_bmap new_ino_no base now =
     (let root = itbl + 128 * 0;
          ne = new_dirent new_ino_no (namebuf_of base) (namelen_of base)
      in case find_slot m root [0..<12] of
           Some e \<Rightarrow> Inr (update_root (store m e ne) root now, None)
         | None \<Rightarrow>
            (case find (\<lambda>d. ino_direct m root d = 0) [0..<12] of
               None \<Rightarrow> Inl (RootNoFreePointer, m)
             | Some slot \<Rightarrow>
                (case find (\<lambda>i. \<not> test_bit m data_bmap i)
                           [0..<unat (ucast (sb_data_region_blocks m) :: u32)] of
                   None \<Rightarrow> Inl (NoFreeBlockForRoot, m)
                 | Some free \<Rightarrow>
                     let m = set_bit_c m data_bmap free;
                         abs = (ucast (sb_data_region_start m + of_nat free) :: u32);
                         m = wr32 m (root + 44 + 4 * slot) abs;
                         blk = unat (4096 * abs);
                         m = memset0 m blk 4096;
                         m = store m blk ne
                     in Inr (update_root m root now, Some free))))"

text \<open>
  \<open>main\<close> of the adder. \<open>Inl (e, m)\<close>: the run returns \<open>exit_code e\<close> without writing the
  output file, and \<open>m\<close> is the buffer at that moment. \<open>Inr r\<close>: the run returns 0 after
  writing \<open>out_img r\<close>. \<open>now_ino\<close> and \<open>now\<close> are the two values of \<open>time(NULL)\<close>.
\<close>

definition mkfs_adder_main ::
  "image \<Rightarrow> string \<Rightarrow> source \<Rightarrow> u64 \<Rightarrow> u64 \<Rightarrow> (error \<times> image) + added" where
  "mkfs_adder_main img filepath src now_ino now =
     (case validate img of
        Some e \<Rightarrow> Inl (e, img)
      | None \<Rightarrow>
         let inode_bmap = unat (4096 * sb_inode_bitmap_start img);
             data_bmap = unat (4096 * sb_data_bitmap_start img);
             itbl = unat (4096 * sb_inode_table_start img)
         in if \<not> src_exists src then Inl (StatFailed, img)
            else if \<not> src_regular src then Inl (NotRegularFile, img)
            else
              let fsize = (of_nat (length (src_bytes src)) :: u64);
                  need_blocks = need_blocks_of fsize
              in if need_blocks > 12 then Inl (FileTooLarge, img)
                 else
                  (case find_free_inode img inode_bmap of
                     None \<Rightarrow> Inl (NoFreeInodes, img)
                   | Some idx \<Rightarrow>
                       let new_ino_no = (of_nat idx + 1 :: u32);
                           dbs = (if need_blocks \<noteq> 0
                                  then find_free_blocks img data_bmap (unat need_blocks) else [])
                       in if need_blocks \<noteq> 0 \<and> length dbs < unat need_blocks
                          then Inl (NotEnoughDataBlocks, img)
                          else
                            let m = set_bit_c img inode_bmap idx;
                                m = foldl (\<lambda>m i. set_bit_c m data_bmap (dbs ! i)) m
                                          [0..<unat need_blocks];
                                ino = itbl + 128 * idx;
                                m = build_inode m ino fsize now_ino (unat need_blocks) dbs
                            in case (if need_blocks \<noteq> 0
                                     then write_file_data m ino (unat need_blocks) fsize
                                            (src_bytes src) [0..<unat need_blocks]
                                     else Some m) of
                                 None \<Rightarrow> Inl (ReadFailed, m)
                               | Some m \<Rightarrow>
                                  (case link_root m itbl data_bmap new_ino_no
                                          (base_name filepath) now of
                                     Inl e \<Rightarrow> Inl e
                                   | Inr (m, ext) \<Rightarrow>
                                       Inr \<lparr>out_img = m, new_ino_idx = idx, db_idxs = dbs,
                                            free_idx = ext\<rparr>)))"

subsection \<open>Notions used to state the properties\<close>

text \<open>
  The geometry the builder writes, as the adder relies on it: bitmaps in blocks 1 and
  2, the inode table from block 3, the data region behind it and inside the image,
  every inode and data-block index within its one-block bitmap, block numbers small
  enough for the 32-bit product \<open>BS * direct[i]\<close>, bit 0 of both bitmaps set, and every
  non-zero direct pointer of the root naming a data-region block marked in use.
\<close>

definition image_ok :: "image \<Rightarrow> bool" where
  "image_ok img \<longleftrightarrow>
     validate img = None \<and>
     sb_inode_bitmap_start img = 1 \<and> sb_data_bitmap_start img = 2 \<and>
     sb_inode_table_start img = 3 \<and>
     (let tb = length img div 4096;
          n = unat (sb_inode_count img);
          itb = unat (sb_inode_table_blocks img);
          drs = unat (sb_data_region_start img);
          drb = unat (sb_data_region_blocks img)
      in drs = 3 + itb \<and> drs + drb \<le> tb \<and> tb \<le> 2 ^ 20 \<and>
         1 \<le> n \<and> n \<le> 32 * itb \<and> n \<le> 32768 \<and> drb \<le> 32768 \<and>
         test_bit img 4096 0 \<and> test_bit img 8192 0 \<and>
         (\<forall>d \<in> {0..<12}.
            let p = unat (ino_direct img 12288 d)
            in p \<noteq> 0 \<longrightarrow> drs \<le> p \<and> p < drs + drb \<and> test_bit img 8192 (p - drs)))"

text \<open>The block a direct pointer names, addressed as both programs do (\<open>BS * direct[i]\<close>).\<close>

definition block_of :: "image \<Rightarrow> u32 \<Rightarrow> u8 list" where
  "block_of m d = load m (unat (4096 * d)) 4096"

text \<open>The blocks of an inode's non-zero direct pointers, in pointer order.\<close>

definition direct_blocks :: "image \<Rightarrow> nat \<Rightarrow> u8 list" where
  "direct_blocks m ino =
     concat (map (block_of m) (filter (\<lambda>d. d \<noteq> 0) (map (ino_direct m ino) [0..<12])))"

text \<open>The data-bitmap indices one run allocated, in the order it allocated them.\<close>

definition allocated_blocks :: "added \<Rightarrow> nat list" where
  "allocated_blocks r = db_idxs r @ (case free_idx r of None \<Rightarrow> [] | Some f \<Rightarrow> [f])"

text \<open>Runs of the adder in sequence, each on the image the previous one wrote.\<close>

record request =
  req_path :: string
  req_src :: source
  req_now_ino :: u64
  req_now :: u64

fun add_files :: "image \<Rightarrow> request list \<Rightarrow> added list option" where
  "add_files img [] = Some []"
| "add_files img (q # qs) =
     (case mkfs_adder_main img (req_path q) (req_src q) (req_now_ino q) (req_now q) of
        Inl e \<Rightarrow> None
      | Inr r \<Rightarrow>
         (case add_files (out_img r) qs of
            None \<Rightarrow> None
          | Some rs \<Rightarrow> Some (r # rs)))"

text \<open>The image each run of such a sequence read: the first the given one, then the outputs.\<close>

fun inputs :: "image \<Rightarrow> added list \<Rightarrow> image list" where
  "inputs img [] = []"
| "inputs img (r # rs) = img # inputs (out_img r) rs"

text \<open>
  The image the builder assembles, with the addresses written out: \<open>T\<close> blocks, an
  inode table of \<open>N\<close> blocks, the superblock bytes \<open>sb\<close> and the root inode bytes \<open>root\<close>.
\<close>

abbreviation builder_img :: "nat \<Rightarrow> nat \<Rightarrow> u8 list \<Rightarrow> u8 list \<Rightarrow> image" where
  "builder_img T N sb root \<equiv>
    store (store (memset0 (store (memset0 (set_bit_c (set_bit_c (memset0 (memset0
      (store (memset0 (replicate (T * 4096) 0) 0 4096) 0 sb) 4096 4096) 8192 4096) 4096 0) 8192 0)
      12288 (N * 4096)) 12288 root) (4096 * (3 + N)) 4096) (4096 * (3 + N)) dot_entry)
      (4096 * (3 + N) + 64) dotdot_entry"

text \<open>Two buffers of one length that agree on every byte outside the address set \<open>R\<close>.\<close>

definition same_outside :: "nat set \<Rightarrow> image \<Rightarrow> image \<Rightarrow> bool" where
  "same_outside R m m' \<longleftrightarrow>
     length m' = length m \<and> (\<forall>a. a < length m \<longrightarrow> a \<notin> R \<longrightarrow> m' ! a = m ! a)"

text \<open>The \<open>i\<close>-th 4096-byte piece of a file, zero-padded to a block.\<close>

definition chunk :: "u8 list \<Rightarrow> nat \<Rightarrow> u8 list" where
  "chunk bytes i = take 4096 (drop (4096 * i) bytes) @
     replicate (4096 - length (take 4096 (drop (4096 * i) bytes))) 0"

text \<open>
  The stored superblock checksum agrees with the one \<open>superblock_crc_finalize\<close> computes
  for the 116 superblock bytes of the image.
\<close>

definition stored_crc_ok :: "image \<Rightarrow> bool" where
  "stored_crc_ok img \<longleftrightarrow>
     sb_checksum img = rd32 (superblock_crc_finalize (load img 0 116)) 112"

text \<open>Concrete inputs: a 1024 KiB image with 128 inodes, formatted at time 0.\<close>

definition fresh_img :: image where
  "fresh_img = (case mkfs_builder_main 1024 128 0 0 of Inr img \<Rightarrow> img | Inl e \<Rightarrow> [])"

text \<open>The same image with the lowest bit of the stored checksum flipped.\<close>

definition corrupt_img :: image where
  "corrupt_img = wr32 fresh_img 112 (sb_checksum fresh_img XOR 1)"

text \<open>The same image with every bit of the data bitmap set.\<close>

definition full_img :: image where
  "full_img = store fresh_img 8192 (replicate 4096 255)"

text \<open>A one-byte regular file, an empty one, and a sparse one of 16 TiB (2^44 bytes).\<close>

definition small_src :: source where
  "small_src = \<lparr>src_exists = True, src_regular = True, src_bytes = [7]\<rparr>"

definition empty_src :: source where
  "empty_src = \<lparr>src_exists = True, src_regular = True, src_bytes = []\<rparr>"

definition huge_src :: source where
  "huge_src = \<lparr>src_exists = True, src_regular = True, src_bytes = replicate 17592186044416 0\<rparr>"

text \<open>
  The root directory as the inspector walks it: the entries of the blocks the root's
  non-zero direct pointers name. \<open>numbering_ok\<close> says that the superblock names inode 1
  as the root, that bit 0 of the inode bitmap is set, and that every occupied entry
  stores a number \<open>no\<close> from 1 to \<open>inode_count\<close> whose inode, at table index \<open>no - 1\<close>,
  is marked in use.
\<close>

definition root_entry :: "image \<Rightarrow> nat \<Rightarrow> nat \<Rightarrow> nat" where
  "root_entry img d i = unat (4096 * ino_direct img 12288 d) + i * 64"

definition numbering_ok :: "image \<Rightarrow> bool" where
  "numbering_ok img \<longleftrightarrow>
     sb_root_inode img = 1 \<and> test_bit img 4096 0 \<and>
     (\<forall>d \<in> {0..<12}. \<forall>i \<in> {0..<64}.
        ino_direct img 12288 d \<noteq> 0 \<longrightarrow>
        (let no = unat (de_inode_no img (root_entry img d i))
         in no \<noteq> 0 \<longrightarrow> no \<le> unat (sb_inode_count img) \<and> test_bit img 4096 (no - 1)))"

text \<open>
  An empty file and a one-byte file added at time 0, and the image reached from the
  fresh one by adding the empty file 62 times. \<open>dirfill img k b\<close> describes the fresh
  image after \<open>k\<close> runs that took \<open>b\<close> data blocks in all: inodes 0 to \<open>k\<close> in use, the
  root directory in its first block only, entries 0 to \<open>k + 1\<close> of that block occupied,
  and data blocks 0 to \<open>b\<close> in use.
\<close>

definition empty_req :: request where
  "empty_req = \<lparr>req_path = ''empty'', req_src = empty_src, req_now_ino = 0, req_now = 0\<rparr>"

definition small_req :: request where
  "small_req = \<lparr>req_path = ''a.txt'', req_src = small_src, req_now_ino = 0, req_now = 0\<rparr>"


definition dirfill :: "image \<Rightarrow> nat \<Rightarrow> nat \<Rightarrow> bool" where
  "dirfill img k b \<longleftrightarrow>
     image_ok img \<and> unat (sb_inode_count img) = 128 \<and>
     unat (sb_data_region_start img) = 7 \<and> unat (sb_data_region_blocks img) = 249 \<and>
     ino_direct img 12288 0 = 7 \<and>
     (\<forall>d \<in> {1..<12}. ino_direct img 12288 d = 0) \<and>
     (\<forall>i \<in> {0..<64}. de_inode_no img (28672 + i * 64) = 0 \<longleftrightarrow> k + 2 \<le> i) \<and>
     (\<forall>j \<in> {0..<128}. test_bit img 4096 j \<longleftrightarrow> j \<le> k) \<and>
     (\<forall>j \<in> {0..<249}. test_bit img 8192 j \<longleftrightarrow> j \<le> b)"

section \<open>Properties\<close>

lemma length_store [simp]: "length (store m a bs) = length m"
  by (simp add: store_def)

lemma length_memset0 [simp]: "length (memset0 m a n) = length m"
  by (simp add: memset0_def)

lemma length_le_bytes [simp]: "length (le_bytes n w) = n"
  by (induction n arbitrary: w) simp_all

lemma length_load: "a + n \<le> length m \<Longrightarrow> length (load m a n) = n"
  by (simp add: load_def)

lemma load_store_same: "a + length bs \<le> length m \<Longrightarrow> n = length bs \<Longrightarrow> load (store m a bs) a n = bs"
  by (simp add: load_def store_def)

lemma load_store_disj: "b + n \<le> a \<or> a + length bs \<le> b \<Longrightarrow> load (store m a bs) b n = load m b n"
  by (auto simp: load_def store_def take_drop min_def)

lemma load_store_sub:
  "a \<le> b \<Longrightarrow> b + n \<le> a + length bs \<Longrightarrow> a + length bs \<le> length m \<Longrightarrow>
   load (store m a bs) b n = load bs (b - a) n"
  by (auto simp: load_def store_def)

lemma le_word_le_bytes: "(le_word (le_bytes n w) :: 'a::len word) = take_bit (8 * n) w"
proof (induction n arbitrary: w)
  case 0
  then show ?case by simp
next
  case (Suc n)
  show ?case
    apply (simp add: Suc)
    apply (rule bit_eqI)
    apply (auto simp: bit_simps)
    done
qed

lemma le_word_le_bytes_id: "LENGTH('a::len) \<le> 8 * n \<Longrightarrow> (le_word (le_bytes n w) :: 'a word) = w"
  by (simp add: le_word_le_bytes take_bit_word_eq_self)

lemma nth_store: "i < length m \<Longrightarrow> store m a bs ! i = (if a \<le> i \<and> i < a + length bs \<and> a + length bs \<le> length m then bs ! (i - a) else m ! i)"
  by (auto simp: store_def nth_append)

lemma parse_cli_bounds:
  assumes "parse_cli size_kib inodes"
  shows "180 \<le> unat size_kib" "unat size_kib \<le> 4096" "unat size_kib mod 4 = 0"
        "128 \<le> unat inodes" "unat inodes \<le> 512"
  using assms
  by (auto simp: parse_cli_def word_less_nat_alt word_le_nat_alt not_less not_le unat_mod_distrib
      dest!: arg_cong[where f=unat])

lemma unat_total_blocks_of: 
  "unat (total_blocks_of size_kib) = unat size_kib div 4"
proof -
  have "unat size_kib < 2^32" using unsigned_less[of size_kib] by simp
  then have "unat (ucast size_kib * 1024 :: u64) = unat size_kib * 1024"
    by (simp add: unat_word_ariths unsigned_ucast_eq take_bit_nat_eq_self)
  then show ?thesis
    by (simp add: total_blocks_of_def unat_div)
qed

lemma unat_inode_tbl_blks_of:
  "unat (inode_tbl_blks_of inodes) = (unat inodes + 31) div 32"
proof -
  have "unat inodes < 2^32" using unsigned_less[of inodes] by simp
  then have "unat (ucast inodes + 32 - 1 :: u64) = unat inodes + 31"
    by (simp add: unat_word_ariths unsigned_ucast_eq take_bit_nat_eq_self)
  then show ?thesis
    by (simp add: inode_tbl_blks_of_def inodes_per_blk_def unat_div)
qed

lemmas rw_defs = rd8_def rd16_def rd32_def rd64_def wr8_def wr16_def wr32_def wr64_def memset0_def

lemma length_superblock_crc_finalize [simp]: "length (superblock_crc_finalize sb) = length sb"
  by (simp add: superblock_crc_finalize_def Let_def rw_defs)

lemma load_superblock_crc_finalize:
  "b + n \<le> 112 \<Longrightarrow> load (superblock_crc_finalize sb) b n = load sb b n"
  by (simp add: superblock_crc_finalize_def Let_def rw_defs load_store_disj)

lemma length_inode_crc_finalize [simp]: "length (inode_crc_finalize m ino) = length m"
  by (simp add: inode_crc_finalize_def Let_def rw_defs)

lemma load_inode_crc_finalize:
  "b + n \<le> ino + 120 \<or> ino + 128 \<le> b \<Longrightarrow> load (inode_crc_finalize m ino) b n = load m b n"
  by (auto simp: inode_crc_finalize_def Let_def rw_defs load_store_disj)

lemma length_dirent_checksum_finalize [simp]: "length (dirent_checksum_finalize de) = length de"
  by (simp add: dirent_checksum_finalize_def rw_defs)

lemma load_dirent_checksum_finalize:
  "b + n \<le> 63 \<Longrightarrow> load (dirent_checksum_finalize de) b n = load de b n"
  by (simp add: dirent_checksum_finalize_def rw_defs load_store_disj)

lemma length_set_bit_c [simp]: "length (set_bit_c m bmap idx) = length m"
  by (simp add: set_bit_c_def rw_defs)

lemma load_set_bit_c:
  "b + n \<le> bmap + idx div 8 \<or> bmap + idx div 8 < b \<Longrightarrow> load (set_bit_c m bmap idx) b n = load m b n"
  by (auto simp: set_bit_c_def rw_defs load_store_disj)

lemma le_word_single [simp]: "(le_word [b] :: u8) = b"
  by simp

lemma test_bit_iff: "test_bit m bmap idx \<longleftrightarrow> bit (rd8 m (bmap + idx div 8)) (idx mod 8)"
  by (simp add: test_bit_def and_one_eq bit_iff_odd_drop_bit odd_iff_mod_2_eq_one)

lemma test_bit_set_bit_c:
  assumes "bmap + i div 8 < length m"
  shows "test_bit (set_bit_c m bmap i) bmap j \<longleftrightarrow> j = i \<or> test_bit m bmap j"
proof (cases "j div 8 = i div 8")
  case True
  have "rd8 (set_bit_c m bmap i) (bmap + j div 8) = rd8 m (bmap + i div 8) OR push_bit (i mod 8) 1"
    using assms True by (simp add: set_bit_c_def rd8_def wr8_def load_store_same)
  moreover have "j = i \<longleftrightarrow> j mod 8 = i mod 8"
    using True by (metis div_mult_mod_eq)
  moreover have "j mod 8 < 8" by simp
  ultimately show ?thesis
    using True
    by (auto simp: test_bit_iff bit_simps)
next
  case False
  then have "j \<noteq> i" by auto
  moreover have "rd8 (set_bit_c m bmap i) (bmap + j div 8) = rd8 m (bmap + j div 8)"
    using False unfolding rd8_def by (subst load_set_bit_c) auto
  ultimately show ?thesis by (simp add: test_bit_iff)
qed

lemma le_word_replicate0 [simp]: "le_word (replicate n 0) = 0"
  by (induction n) simp_all

lemma load_replicate: "a + n \<le> k \<Longrightarrow> load (replicate k x) a n = replicate n x"
  by (simp add: load_def)

lemma length_build_root [simp]: "length (build_root drs t) = 128"
  by (simp add: build_root_def Let_def rw_defs)

lemma length_build_superblock [simp]: "length (build_superblock tb n itb t) = 116"
  by (simp add: build_superblock_def Let_def rw_defs)

lemma length_dot_entry [simp]: "length dot_entry = 64"
  by (simp add: dot_entry_def Let_def rw_defs)

lemma length_dotdot_entry [simp]: "length dotdot_entry = 64"
  by (simp add: dotdot_entry_def Let_def rw_defs)

lemmas field_simps_mem = rd8_def rd16_def rd32_def rd64_def wr8_def wr16_def wr32_def wr64_def
  memset0_def load_store_disj load_store_same load_store_sub le_word_le_bytes_id load_replicate
  load_inode_crc_finalize load_superblock_crc_finalize load_dirent_checksum_finalize

lemma build_root_fields:
  "rd16 (build_root drs t) 0 = 0x4000"
  "rd16 (build_root drs t) 2 = 2"
  "rd64 (build_root drs t) 12 = 128"
  "rd32 (build_root drs t) 44 = ucast drs"
  by (simp_all add: build_root_def Let_def field_simps_mem)

lemma build_root_direct_rest:
  "1 \<le> d \<Longrightarrow> d < 12 \<Longrightarrow> rd32 (build_root drs t) (44 + 4 * d) = 0"
  by (simp add: build_root_def Let_def field_simps_mem)

lemma builder_Inr:
  assumes "mkfs_builder_main s n t1 t2 = Inr img"
  shows "parse_cli s n"
    and "img = builder_img (unat s div 4) ((unat n + 31) div 32)
            (build_superblock (total_blocks_of s) n (inode_tbl_blks_of n) t1)
            (build_root (3 + inode_tbl_blks_of n) t2)"
proof -
  show p: "parse_cli s n" using assms by (auto simp: mkfs_builder_main_def split: if_splits)
  note b = parse_cli_bounds[OF p]
  let ?N = "(unat n + 31) div 32"
  have N: "?N \<le> 16" using b by simp
  have u: "unat (3 + inode_tbl_blks_of n) = 3 + ?N"
    using N by (simp add: unat_word_ariths unat_inode_tbl_blks_of)
  have "unat (ucast (3 + inode_tbl_blks_of n) :: u32) = 3 + ?N"
    using N u by (simp add: unsigned_ucast_eq take_bit_nat_eq_self)
  then have r: "unat (4096 * (ucast (3 + inode_tbl_blks_of n) :: u32)) = 4096 * (3 + ?N)"
    using N by (simp add: unat_word_ariths)
  show "img = builder_img (unat s div 4) ?N
            (build_superblock (total_blocks_of s) n (inode_tbl_blks_of n) t1)
            (build_root (3 + inode_tbl_blks_of n) t2)"
    using assms p r
    by (simp add: mkfs_builder_main_def Let_def build_root_fields
        unat_total_blocks_of unat_inode_tbl_blks_of split: if_splits)
qed

lemma build_superblock_fields:
  "rd32 (build_superblock tb n itb t) 0 = 0x4D565346"
  "rd32 (build_superblock tb n itb t) 4 = 1"
  "rd32 (build_superblock tb n itb t) 8 = 4096"
  "rd64 (build_superblock tb n itb t) 12 = tb"
  "rd64 (build_superblock tb n itb t) 20 = ucast n"
  "rd64 (build_superblock tb n itb t) 28 = 1"
  "rd64 (build_superblock tb n itb t) 36 = 1"
  "rd64 (build_superblock tb n itb t) 44 = 2"
  "rd64 (build_superblock tb n itb t) 52 = 1"
  "rd64 (build_superblock tb n itb t) 60 = 3"
  "rd64 (build_superblock tb n itb t) 68 = itb"
  "rd64 (build_superblock tb n itb t) 76 = 3 + itb"
  "rd64 (build_superblock tb n itb t) 84 = tb - (3 + itb)"
  "rd64 (build_superblock tb n itb t) 92 = 1"
  by (simp_all add: build_superblock_def Let_def field_simps_mem)

lemma builder_img_length: "length (builder_img T N sb root) = T * 4096"
  by simp

lemma builder_img_sb:
  assumes "3 \<le> T" "length sb = 116" "length root = 128" "3 + N < T" "b + k \<le> 116"
  shows "load (builder_img T N sb root) b k = load sb b k"
  using assms
  by (simp add: field_simps_mem load_set_bit_c)

lemma dot_entry_fields:
  "rd32 dot_entry 0 = 1" "rd8 dot_entry 4 = 2" "load dot_entry 5 58 = of_char CHR ''.'' # replicate 57 0"
  by (simp_all add: dot_entry_def Let_def field_simps_mem) (simp add: load_def store_def)

lemma dotdot_entry_fields:
  "rd32 dotdot_entry 0 = 1" "rd8 dotdot_entry 4 = 2"
  "load dotdot_entry 5 58 = of_char CHR ''.'' # of_char CHR ''.'' # replicate 56 0"
  by (simp_all add: dotdot_entry_def Let_def field_simps_mem) (simp add: load_def store_def)

lemma builder_img_ibm:
  assumes "length sb = 116" "length root = 128" "3 + N < T" "1 \<le> N" "i < 32768"
  shows "test_bit (builder_img T N sb root) 4096 i \<longleftrightarrow> i = 0"
proof -
  have a: "4096 + i div 8 < 8192" using assms by simp
  have "rd8 (builder_img T N sb root) (4096 + i div 8) = rd8 (set_bit_c (memset0 (memset0
      (store (memset0 (replicate (T * 4096) 0) 0 4096) 0 sb) 4096 4096) 8192 4096) 4096 0) (4096 + i div 8)"
    using assms a by (simp add: field_simps_mem load_set_bit_c)
  then have "test_bit (builder_img T N sb root) 4096 i \<longleftrightarrow> test_bit (set_bit_c (memset0 (memset0
      (store (memset0 (replicate (T * 4096) 0) 0 4096) 0 sb) 4096 4096) 8192 4096) 4096 0) 4096 i"
    by (simp add: test_bit_iff)
  also have "\<dots> \<longleftrightarrow> i = 0 \<or> test_bit (memset0 (memset0
      (store (memset0 (replicate (T * 4096) 0) 0 4096) 0 sb) 4096 4096) 8192 4096) 4096 i"
    using assms by (subst test_bit_set_bit_c) simp_all
  also have "\<dots> \<longleftrightarrow> i = 0"
    using assms a by (simp add: test_bit_iff field_simps_mem)
  finally show ?thesis .
qed

lemma builder_img_dbm:
  assumes "length sb = 116" "length root = 128" "3 + N < T" "1 \<le> N" "i < 32768"
  shows "test_bit (builder_img T N sb root) 8192 i \<longleftrightarrow> i = 0"
proof -
  have a: "8192 + i div 8 < 12288" using assms by simp
  have "rd8 (builder_img T N sb root) (8192 + i div 8) = rd8 (set_bit_c (set_bit_c (memset0 (memset0
      (store (memset0 (replicate (T * 4096) 0) 0 4096) 0 sb) 4096 4096) 8192 4096) 4096 0) 8192 0) (8192 + i div 8)"
    using assms a by (simp add: field_simps_mem)
  then have "test_bit (builder_img T N sb root) 8192 i \<longleftrightarrow> test_bit (set_bit_c (set_bit_c (memset0 (memset0
      (store (memset0 (replicate (T * 4096) 0) 0 4096) 0 sb) 4096 4096) 8192 4096) 4096 0) 8192 0) 8192 i"
    by (simp add: test_bit_iff)
  also have "\<dots> \<longleftrightarrow> i = 0 \<or> test_bit (set_bit_c (memset0 (memset0
      (store (memset0 (replicate (T * 4096) 0) 0 4096) 0 sb) 4096 4096) 8192 4096) 4096 0) 8192 i"
    using assms by (subst test_bit_set_bit_c) simp_all
  also have "\<dots> \<longleftrightarrow> i = 0"
    using assms a by (simp add: test_bit_iff field_simps_mem load_set_bit_c)
  finally show ?thesis .
qed

lemma builder_img_root:
  assumes "length sb = 116" "length root = 128" "3 + N < T" "1 \<le> N" "b + k \<le> 128"
  shows "load (builder_img T N sb root) (12288 + b) k = load root b k"
  using assms by (simp add: field_simps_mem)

lemma builder_img_itbl_rest:
  assumes "length sb = 116" "length root = 128" "3 + N < T" "1 \<le> N" "12416 \<le> b" "b + k \<le> 4096 * (3 + N)"
  shows "load (builder_img T N sb root) b k = replicate k 0"
  using assms by (simp add: field_simps_mem)

lemma builder_img_dot:
  assumes "length sb = 116" "length root = 128" "3 + N < T" "1 \<le> N" "b + k \<le> 64"
  shows "load (builder_img T N sb root) (4096 * (3 + N) + b) k = load dot_entry b k"
  using assms by (simp add: field_simps_mem)

lemma builder_img_dotdot:
  assumes "length sb = 116" "length root = 128" "3 + N < T" "1 \<le> N" "b + k \<le> 64"
  shows "load (builder_img T N sb root) (4096 * (3 + N) + 64 + b) k = load dotdot_entry b k"
  using assms by (simp add: field_simps_mem)

lemma builder_img_data_rest:
  assumes "length sb = 116" "length root = 128" "3 + N < T" "1 \<le> N" "4096 * (3 + N) + 128 \<le> b" "b + k \<le> 4096 * (3 + N) + 4096"
  shows "load (builder_img T N sb root) b k = replicate k 0"
  using assms by (simp add: field_simps_mem)

lemma builder_facts:
  assumes "mkfs_builder_main s n t1 t2 = Inr img"
  defines "T \<equiv> unat s div 4" and "N \<equiv> (unat n + 31) div 32"
  shows "length img = 4096 * T" "45 \<le> T" "T \<le> 1024" "4 \<le> N" "N \<le> 16"
    "sb_magic img = 0x4D565346" "sb_version img = 1" "sb_block_size img = 4096"
    "sb_total_blocks img = total_blocks_of s" "sb_inode_count img = ucast n"
    "sb_inode_bitmap_start img = 1" "sb_inode_bitmap_blocks img = 1"
    "sb_data_bitmap_start img = 2" "sb_data_bitmap_blocks img = 1"
    "sb_inode_table_start img = 3" "sb_inode_table_blocks img = inode_tbl_blks_of n"
    "sb_data_region_start img = 3 + inode_tbl_blks_of n"
    "sb_data_region_blocks img = total_blocks_of s - (3 + inode_tbl_blks_of n)"
    "sb_root_inode img = 1"
    "unat (sb_data_region_start img) = 3 + N"
    "unat (sb_data_region_blocks img) = T - (3 + N)"
    "unat (sb_inode_count img) = unat n"
    "unat (sb_inode_table_blocks img) = N"
    "unat (sb_total_blocks img) = T"
proof -
  note p = builder_Inr(1)[OF assms(1)]
  note b = parse_cli_bounds[OF p]
  note e = builder_Inr(2)[OF assms(1), folded T_def N_def]
  show T: "45 \<le> T" "T \<le> 1024" using b by (simp_all add: T_def)
  show N: "4 \<le> N" "N \<le> 16" using b by (simp_all add: N_def)
  show "length img = 4096 * T" by (simp add: e)
  have sb: "\<And>b k. b + k \<le> 116 \<Longrightarrow> load img b k =
      load (build_superblock (total_blocks_of s) n (inode_tbl_blks_of n) t1) b k"
    unfolding e using T N by (intro builder_img_sb) simp_all
  show f: "sb_magic img = 0x4D565346" "sb_version img = 1" "sb_block_size img = 4096"
    "sb_total_blocks img = total_blocks_of s" "sb_inode_count img = ucast n"
    "sb_inode_bitmap_start img = 1" "sb_inode_bitmap_blocks img = 1"
    "sb_data_bitmap_start img = 2" "sb_data_bitmap_blocks img = 1"
    "sb_inode_table_start img = 3" "sb_inode_table_blocks img = inode_tbl_blks_of n"
    "sb_data_region_start img = 3 + inode_tbl_blks_of n"
    "sb_data_region_blocks img = total_blocks_of s - (3 + inode_tbl_blks_of n)"
    "sb_root_inode img = 1"
    unfolding sb_magic_def sb_version_def sb_block_size_def sb_total_blocks_def sb_inode_count_def
      sb_inode_bitmap_start_def sb_inode_bitmap_blocks_def sb_data_bitmap_start_def
      sb_data_bitmap_blocks_def sb_inode_table_start_def sb_inode_table_blocks_def
      sb_data_region_start_def sb_data_region_blocks_def sb_root_inode_def
    using build_superblock_fields[of "total_blocks_of s" n "inode_tbl_blks_of n" t1]
    by (simp_all add: rd32_def rd64_def sb)
  have u: "unat (3 + inode_tbl_blks_of n) = 3 + N"
    using N by (simp add: unat_word_ariths unat_inode_tbl_blks_of N_def)
  show "unat (sb_data_region_start img) = 3 + N" by (simp add: f u)
  have "3 + inode_tbl_blks_of n \<le> total_blocks_of s"
    using u T N by (simp add: word_le_nat_alt unat_total_blocks_of T_def)
  then show "unat (sb_data_region_blocks img) = T - (3 + N)"
    by (simp add: f unat_sub u unat_total_blocks_of T_def)
  show "unat (sb_inode_count img) = unat n"
    using unsigned_less[of n, where ?'a = nat] by (simp add: f unsigned_ucast_eq take_bit_nat_eq_self)
  show "unat (sb_inode_table_blocks img) = N" by (simp add: f unat_inode_tbl_blks_of N_def)
  show "unat (sb_total_blocks img) = T" by (simp add: f unat_total_blocks_of T_def)
qed

lemma builder_total:
  assumes "parse_cli s n"
  shows "\<exists>img. mkfs_builder_main s n t1 t2 = Inr img"
proof -
  note b = parse_cli_bounds[OF assms]
  have N: "(unat n + 31) div 32 \<le> 16" using b by simp
  have "unat (3 + inode_tbl_blks_of n + 1) = 4 + (unat n + 31) div 32"
    using N by (simp add: unat_word_ariths unat_inode_tbl_blks_of)
  then have "\<not> total_blocks_of s < 3 + inode_tbl_blks_of n + 1"
    using b N by (simp add: word_less_nat_alt unat_total_blocks_of)
  then show ?thesis using assms by (simp add: mkfs_builder_main_def Let_def)
qed

lemma builder_root_inode:
  assumes "mkfs_builder_main s n t1 t2 = Inr img" "b + k \<le> 128"
  shows "load img (12288 + b) k = load (build_root (3 + inode_tbl_blks_of n) t2) b k"
proof -
  note f = builder_facts[OF assms(1)]
  show ?thesis
    unfolding builder_Inr(2)[OF assms(1)] using f(2-5) assms(2)
    by (intro builder_img_root) simp_all
qed

lemma builder_root_fields:
  assumes "mkfs_builder_main s n t1 t2 = Inr img"
  shows "ino_mode img 12288 = 0x4000" "ino_links img 12288 = 2" "ino_size_bytes img 12288 = 128"
    "ino_direct img 12288 0 = ucast (sb_data_region_start img)"
    "unat (ino_direct img 12288 0) = unat (sb_data_region_start img)"
    "unat (4096 * ino_direct img 12288 0) = 4096 * unat (sb_data_region_start img)"
    "\<And>d. 1 \<le> d \<Longrightarrow> d < 12 \<Longrightarrow> ino_direct img 12288 d = 0"
proof -
  note f = builder_facts[OF assms(1)]
  note r = builder_root_inode[OF assms(1)]
  show "ino_mode img 12288 = 0x4000" "ino_links img 12288 = 2" "ino_size_bytes img 12288 = 128"
    using build_root_fields[of "3 + inode_tbl_blks_of n" t2] r[of 0 2] r[of 2 2] r[of 12 8]
    by (simp_all add: ino_mode_def ino_links_def ino_size_bytes_def rd16_def rd64_def)
  show d0: "ino_direct img 12288 0 = ucast (sb_data_region_start img)"
    using build_root_fields[of "3 + inode_tbl_blks_of n" t2] r[of 44 4] f(17)
    by (simp add: ino_direct_def rd32_def)
  show u: "unat (ino_direct img 12288 0) = unat (sb_data_region_start img)"
    using f(5,20) by (simp add: d0 unsigned_ucast_eq take_bit_nat_eq_self)
  show "unat (4096 * ino_direct img 12288 0) = 4096 * unat (sb_data_region_start img)"
    using f(5,20) u by (simp add: unat_word_ariths)
  show "\<And>d. 1 \<le> d \<Longrightarrow> d < 12 \<Longrightarrow> ino_direct img 12288 d = 0"
  proof -
    fix d :: nat assume d: "1 \<le> d" "d < 12"
    have "load img (12288 + (44 + 4 * d)) 4 = load (build_root (3 + inode_tbl_blks_of n) t2) (44 + 4 * d) 4"
      using d by (intro r) simp
    then show "ino_direct img 12288 d = 0"
      using build_root_direct_rest[OF d, of "3 + inode_tbl_blks_of n" t2]
      by (simp add: ino_direct_def rd32_def add.assoc)
  qed
qed

lemma builder_bitmaps:
  assumes "mkfs_builder_main s n t1 t2 = Inr img" "i < 32768"
  shows "test_bit img 4096 i \<longleftrightarrow> i = 0" "test_bit img 8192 i \<longleftrightarrow> i = 0"
proof -
  note f = builder_facts[OF assms(1)]
  show "test_bit img 4096 i \<longleftrightarrow> i = 0"
    unfolding builder_Inr(2)[OF assms(1)] using f(2-5) assms(2)
    by (intro builder_img_ibm) simp_all
  show "test_bit img 8192 i \<longleftrightarrow> i = 0"
    unfolding builder_Inr(2)[OF assms(1)] using f(2-5) assms(2)
    by (intro builder_img_dbm) simp_all
qed

lemma builder_root_block:
  assumes "mkfs_builder_main s n t1 t2 = Inr img"
  defines "e \<equiv> 4096 * unat (sb_data_region_start img)"
  shows "de_inode_no img e = 1" "de_type img e = 2"
    "de_name img e = of_char CHR ''.'' # replicate 57 0"
    "de_inode_no img (e + 64) = 1" "de_type img (e + 64) = 2"
    "de_name img (e + 64) = of_char CHR ''.'' # of_char CHR ''.'' # replicate 56 0"
    "\<And>i. 2 \<le> i \<Longrightarrow> i < 64 \<Longrightarrow> de_inode_no img (e + i * 64) = 0"
proof -
  note f = builder_facts[OF assms(1)]
  let ?N = "(unat n + 31) div 32"
  have e: "e = 4096 * (3 + ?N)" by (simp add: e_def f(20))
  have dot: "\<And>b k. b + k \<le> 64 \<Longrightarrow> load img (e + b) k = load dot_entry b k"
    unfolding builder_Inr(2)[OF assms(1)] e using f(2-5)
    by (intro builder_img_dot) simp_all
  have dotdot: "\<And>b k. b + k \<le> 64 \<Longrightarrow> load img (e + 64 + b) k = load dotdot_entry b k"
    unfolding builder_Inr(2)[OF assms(1)] e using f(2-5)
    by (intro builder_img_dotdot) simp_all
  have rest: "\<And>b k. e + 128 \<le> b \<Longrightarrow> b + k \<le> e + 4096 \<Longrightarrow> load img b k = replicate k 0"
    unfolding builder_Inr(2)[OF assms(1)] e using f(2-5)
    by (intro builder_img_data_rest) simp_all
  show "de_inode_no img e = 1" "de_type img e = 2"
    "de_name img e = of_char CHR ''.'' # replicate 57 0"
    using dot[of 0 4] dot[of 4 1] dot[of 5 58] dot_entry_fields
    by (simp_all add: de_inode_no_def de_type_def de_name_def rd32_def rd8_def)
  show "de_inode_no img (e + 64) = 1" "de_type img (e + 64) = 2"
    "de_name img (e + 64) = of_char CHR ''.'' # of_char CHR ''.'' # replicate 56 0"
    using dotdot[of 0 4] dotdot[of 4 1] dotdot[of 5 58] dotdot_entry_fields
    by (simp_all add: de_inode_no_def de_type_def de_name_def rd32_def rd8_def add.assoc)
  show "\<And>i. 2 \<le> i \<Longrightarrow> i < 64 \<Longrightarrow> de_inode_no img (e + i * 64) = 0"
  proof -
    fix i :: nat assume "2 \<le> i" "i < 64"
    then have "load img (e + i * 64) 4 = replicate 4 0" by (intro rest) simp_all
    then show "de_inode_no img (e + i * 64) = 0" by (simp add: de_inode_no_def rd32_def)
  qed
qed

lemma builder_image_ok:
  assumes "mkfs_builder_main s n t1 t2 = Inr img"
  shows "image_ok img"
proof -
  note f = builder_facts[OF assms]
  note r = builder_root_fields[OF assms]
  note p = parse_cli_bounds[OF builder_Inr(1)[OF assms]]
  have v: "validate img = None"
    using f(1-9) f(24)[symmetric] by (simp add: validate_def)
  have d: "\<forall>d \<in> {0..<12}. let p = unat (ino_direct img 12288 d)
            in p \<noteq> 0 \<longrightarrow> unat (sb_data_region_start img) \<le> p \<and>
               p < unat (sb_data_region_start img) + unat (sb_data_region_blocks img) \<and>
               test_bit img 8192 (p - unat (sb_data_region_start img))"
  proof
    fix d :: nat assume "d \<in> {0..<12}"
    then consider "d = 0" | "1 \<le> d" "d < 12" by force
    then show "let p = unat (ino_direct img 12288 d)
            in p \<noteq> 0 \<longrightarrow> unat (sb_data_region_start img) \<le> p \<and>
               p < unat (sb_data_region_start img) + unat (sb_data_region_blocks img) \<and>
               test_bit img 8192 (p - unat (sb_data_region_start img))"
    proof cases
      case 1
      then show ?thesis using r(5) f(2-5,20,21) builder_bitmaps(2)[OF assms, of 0]
        by (simp add: Let_def)
    next
      case 2
      then show ?thesis using r(7)[of d] by simp
    qed
  qed
  have a1: "unat n \<le> 32 * ((unat n + 31) div 32)" by arith
  have a2: "unat s div 4 - (3 + (unat n + 31) div 32) \<le> 32768" using f(3) by arith
  show ?thesis
    unfolding image_ok_def Let_def
    using v f(1-5,11,13,15,20-23) p builder_bitmaps[OF assms, of 0] d[unfolded Let_def] a1 a2
    by simp
qed

lemma ceil_inode_blocks: "((x::nat) + 31) div 32 = (x * 128 + 4095) div 4096"
proof -
  have "(x * 128 + 4095) div 4096 = (128 * (x + 31) + 127) div (128 * 32)" by simp
  also have "\<dots> = ((128 * (x + 31) + 127) div 128) div 32" by (simp add: div_mult2_eq)
  also have "(128 * (x + 31) + 127) div 128 = x + 31" by simp
  finally show ?thesis by simp
qed

lemma kib_blocks: "(x::nat) div 4 = x * 1024 div 4096"
proof -
  have "x * 1024 div 4096 = (1024 * x) div (1024 * 4)" by (simp add: mult.commute)
  also have "\<dots> = x div 4" by simp
  finally show ?thesis by simp
qed

text \<open>
  C6: for every size and inode count that \<open>parse_cli\<close> accepts, the builder produces an
  image whose superblock records the layout: the inode table has
  \<open>ceil(inodes * 128 / 4096)\<close> blocks, the inode bitmap is block 1, the data bitmap is
  block 2 (one block each), the inode table starts at block 3, and the data region
  starts right behind it and takes all remaining blocks. For 1024 KiB and 128 inodes:
  256 blocks, 4 inode-table blocks, data region at block 7 with 249 blocks.
\<close>

theorem layout_planner:
  assumes "parse_cli size_kib inodes"
  shows "\<exists>img. mkfs_builder_main size_kib inodes now_sb now_root = Inr img \<and>
     length img = 4096 * unat (sb_total_blocks img) \<and>
     unat (sb_total_blocks img) = unat size_kib * 1024 div 4096 \<and>
     unat (sb_inode_count img) = unat inodes \<and>
     unat (sb_inode_table_blocks img) = (unat inodes * 128 + 4095) div 4096 \<and>
     sb_inode_bitmap_start img = 1 \<and> sb_inode_bitmap_blocks img = 1 \<and>
     sb_data_bitmap_start img = 2 \<and> sb_data_bitmap_blocks img = 1 \<and>
     sb_inode_table_start img = 3 \<and>
     unat (sb_data_region_start img) = 3 + unat (sb_inode_table_blocks img) \<and>
     unat (sb_data_region_start img) + unat (sb_data_region_blocks img) =
       unat (sb_total_blocks img) \<and>
     (size_kib = 1024 \<and> inodes = 128 \<longrightarrow>
        sb_total_blocks img = 256 \<and> sb_inode_table_blocks img = 4 \<and>
        sb_data_region_start img = 7 \<and> sb_data_region_blocks img = 249)"
proof -
  obtain img where img: "mkfs_builder_main size_kib inodes now_sb now_root = Inr img"
    using builder_total[OF assms] by blast
  note f = builder_facts[OF img]
  note a = ceil_inode_blocks[of "unat inodes"]
  note b = kib_blocks[of "unat size_kib"]
  have c: "size_kib = 1024 \<and> inodes = 128 \<longrightarrow>
        sb_total_blocks img = 256 \<and> sb_inode_table_blocks img = 4 \<and>
        sb_data_region_start img = 7 \<and> sb_data_region_blocks img = 249"
    using f(9,16,17,18) by (auto simp: total_blocks_of_def inode_tbl_blks_of_def inodes_per_blk_def)
  have d: "unat (sb_total_blocks img) = unat size_kib * 1024 div 4096"
    "unat (sb_inode_table_blocks img) = (unat inodes * 128 + 4095) div 4096"
    by (simp_all only: f(23,24) a b)
  have e: "length img = 4096 * unat (sb_total_blocks img)"
    "unat (sb_data_region_start img) = 3 + unat (sb_inode_table_blocks img)"
    "unat (sb_data_region_start img) + unat (sb_data_region_blocks img) =
       unat (sb_total_blocks img)"
    using f(1-5,20,21,23,24) by simp_all
  show ?thesis
    using img f(10-15,22) c d e by blast
qed

theorem layout_planner_witness:
  "parse_cli 1024 128 \<and>
   (\<exists>img. mkfs_builder_main 1024 128 0 0 = Inr img \<and> length img = 4096 * 256 \<and>
      sb_total_blocks img = 256 \<and> sb_inode_table_blocks img = 4 \<and>
      sb_inode_table_start img = 3 \<and> sb_data_region_start img = 7 \<and>
      sb_data_region_blocks img = 249)"
proof -
  have p: "parse_cli 1024 128" by (simp add: parse_cli_def)
  show ?thesis using p layout_planner[OF p, of 0 0] by auto
qed

text \<open>
  C7: after a successful format the root inode (table index 0) is a directory with 2
  links and size \<open>2 * 64\<close>, its first direct pointer is the first block of the data
  region, and that block holds the entries \<open>.\<close> and \<open>..\<close> in slots 0 and 1, both with
  the root inode number, while slots 2 to 63 have inode number 0.
\<close>

theorem root_after_format:
  assumes "mkfs_builder_main size_kib inodes now_sb now_root = Inr img"
  shows "let root = unat (4096 * sb_inode_table_start img) + 128 * 0;
             blk = unat (4096 * ino_direct img root 0)
         in sb_root_inode img = 1 \<and>
            ino_mode img root = 0x4000 \<and>
            ino_links img root = 2 \<and>
            ino_size_bytes img root = 2 * 64 \<and>
            ino_direct img root 0 = ucast (sb_data_region_start img) \<and>
            de_inode_no img blk = ucast (sb_root_inode img) \<and>
            de_name img blk = of_char CHR ''.'' # replicate 57 0 \<and>
            de_inode_no img (blk + 64) = ucast (sb_root_inode img) \<and>
            de_name img (blk + 64) = of_char CHR ''.'' # of_char CHR ''.'' # replicate 56 0 \<and>
            (\<forall>i \<in> {2..<64}. de_inode_no img (blk + i * 64) = 0)"
proof -
  note f = builder_facts[OF assms]
  note r = builder_root_fields[OF assms]
  note b = builder_root_block[OF assms]
  show ?thesis
    using f(15,19) r(1-4,6) b by (simp add: Let_def)
qed

theorem root_after_format_witness:
  "\<exists>img. mkfs_builder_main 1024 128 0 0 = Inr img \<and>
     ino_links img 12288 = 2 \<and> ino_size_bytes img 12288 = 128 \<and>
     ino_direct img 12288 0 = 7 \<and>
     de_inode_no img 28672 = 1 \<and> de_inode_no img 28736 = 1 \<and>
     (\<forall>i \<in> {2..<64}. de_inode_no img (28672 + i * 64) = 0)"
proof -
  have p: "parse_cli 1024 128" by (simp add: parse_cli_def)
  obtain img where img: "mkfs_builder_main 1024 128 0 0 = Inr img"
    using builder_total[OF p] by blast
  have s: "sb_inode_table_start img = 3" "sb_data_region_start img = 7"
    using builder_facts(15,17)[OF img] by (simp_all add: inode_tbl_blks_of_def inodes_per_blk_def)
  have r: "ino_direct img 12288 0 = 7"
    using s root_after_format[OF img] by (simp add: Let_def)
  show ?thesis
    using img s r root_after_format[OF img] by (intro exI[of _ img]) (simp add: Let_def)
qed

subsection \<open>Frames\<close>

lemma same_outside_refl [simp]: "same_outside R m m"
  by (simp add: same_outside_def)

lemma same_outside_trans:
  "same_outside R1 m m1 \<Longrightarrow> same_outside R2 m1 m2 \<Longrightarrow> R1 \<union> R2 \<subseteq> R \<Longrightarrow> same_outside R m m2"
  unfolding same_outside_def by (metis Un_iff subsetD)

lemma same_outside_mono: "same_outside R m m' \<Longrightarrow> R \<subseteq> R' \<Longrightarrow> same_outside R' m m'"
  by (auto simp: same_outside_def)

lemma same_outside_length: "same_outside R m m' \<Longrightarrow> length m' = length m"
  by (simp add: same_outside_def)

lemma same_outside_store: "same_outside {a..<a + length bs} m (store m a bs)"
  by (auto simp: same_outside_def nth_store)

lemma same_outside_load:
  assumes "same_outside R m m'" "{b..<b + k} \<inter> R = {}"
  shows "load m' b k = load m b k"
proof (rule nth_equalityI)
  show l: "length (load m' b k) = length (load m b k)"
    using assms(1) by (simp add: load_def same_outside_def)
  fix i assume i: "i < length (load m' b k)"
  then have "i < k" "b + i < length m" using assms(1) by (auto simp: load_def same_outside_def)
  moreover from this have "b + i \<notin> R" using assms(2) by (auto simp: disjoint_iff)
  ultimately show "load m' b k ! i = load m b k ! i"
    using assms(1) by (simp add: load_def same_outside_def)
qed

lemma same_outside_memset0: "same_outside {a..<a + n} m (memset0 m a n)"
  using same_outside_store[of a "replicate n 0" m] by (simp add: memset0_def)

lemma same_outside_wr:
  "same_outside {a..<a + 1} m (wr8 m a v8)"
  "same_outside {a..<a + 2} m (wr16 m a v16)"
  "same_outside {a..<a + 4} m (wr32 m a v32)"
  "same_outside {a..<a + 8} m (wr64 m a v64)"
  using same_outside_store[of a "[v8]" m] same_outside_store[of a "le_bytes 2 v16" m]
    same_outside_store[of a "le_bytes 4 v32" m] same_outside_store[of a "le_bytes 8 v64" m]
  by (simp_all add: wr8_def wr16_def wr32_def wr64_def)

lemma same_outside_set_bit_c: "same_outside {bmap + idx div 8} m (set_bit_c m bmap idx)"
  using same_outside_wr(1)[of "bmap + idx div 8" m] by (simp add: set_bit_c_def)

lemma same_outside_inode_crc_finalize: "same_outside {ino + 120..<ino + 128} m (inode_crc_finalize m ino)"
  using same_outside_wr(4)[of "ino + 120" m] by (simp add: inode_crc_finalize_def Let_def add.assoc)

text \<open>Readers that depend on a few bytes only.\<close>

lemma same_outside_test_bit:
  "same_outside R m m' \<Longrightarrow> bmap + i div 8 \<notin> R \<Longrightarrow> test_bit m' bmap i = test_bit m bmap i"
  using same_outside_load[of R m m' "bmap + i div 8" 1] by (simp add: test_bit_iff rd8_def)

lemma same_outside_rd:
  assumes "same_outside R m m'"
  shows "{a..<a + 1} \<inter> R = {} \<Longrightarrow> rd8 m' a = rd8 m a"
    "{a..<a + 2} \<inter> R = {} \<Longrightarrow> rd16 m' a = rd16 m a"
    "{a..<a + 4} \<inter> R = {} \<Longrightarrow> rd32 m' a = rd32 m a"
    "{a..<a + 8} \<inter> R = {} \<Longrightarrow> rd64 m' a = rd64 m a"
  using same_outside_load[OF assms] by (simp_all add: rd8_def rd16_def rd32_def rd64_def)

lemma same_outside_sb:
  assumes "same_outside R m m'" "{0..<112} \<inter> R = {}"
  shows "sb_magic m' = sb_magic m" "sb_version m' = sb_version m"
    "sb_block_size m' = sb_block_size m" "sb_total_blocks m' = sb_total_blocks m"
    "sb_inode_count m' = sb_inode_count m" "sb_inode_bitmap_start m' = sb_inode_bitmap_start m"
    "sb_data_bitmap_start m' = sb_data_bitmap_start m"
    "sb_inode_table_start m' = sb_inode_table_start m"
    "sb_inode_table_blocks m' = sb_inode_table_blocks m"
    "sb_data_region_start m' = sb_data_region_start m"
    "sb_data_region_blocks m' = sb_data_region_blocks m"
    "sb_flags m' = sb_flags m" "validate m' = validate m"
proof -
  have l: "\<And>b k. b + k \<le> 112 \<Longrightarrow> load m' b k = load m b k"
    using assms(2) by (intro same_outside_load[OF assms(1)]) (auto simp: disjoint_iff)
  show g: "sb_magic m' = sb_magic m" "sb_version m' = sb_version m"
    "sb_block_size m' = sb_block_size m" "sb_total_blocks m' = sb_total_blocks m"
    "sb_inode_count m' = sb_inode_count m" "sb_inode_bitmap_start m' = sb_inode_bitmap_start m"
    "sb_data_bitmap_start m' = sb_data_bitmap_start m"
    "sb_inode_table_start m' = sb_inode_table_start m"
    "sb_inode_table_blocks m' = sb_inode_table_blocks m"
    "sb_data_region_start m' = sb_data_region_start m"
    "sb_data_region_blocks m' = sb_data_region_blocks m"
    "sb_flags m' = sb_flags m"
    by (simp_all add: sb_magic_def sb_version_def sb_block_size_def sb_total_blocks_def
        sb_inode_count_def sb_inode_bitmap_start_def sb_data_bitmap_start_def
        sb_inode_table_start_def sb_inode_table_blocks_def sb_data_region_start_def
        sb_data_region_blocks_def sb_flags_def rd32_def rd64_def l)
  show "validate m' = validate m"
    using same_outside_length[OF assms(1)] by (simp add: validate_def g)
qed

subsection \<open>What \<open>image_ok\<close> gives\<close>

lemma image_okD:
  assumes "image_ok img"
  shows "validate img = None"
    "length img = 4096 * (length img div 4096)"
    "unat (4096 * sb_inode_bitmap_start img) = 4096"
    "unat (4096 * sb_data_bitmap_start img) = 8192"
    "unat (4096 * sb_inode_table_start img) = 12288"
    "unat (sb_data_region_start img) = 3 + unat (sb_inode_table_blocks img)"
    "unat (sb_data_region_start img) + unat (sb_data_region_blocks img) \<le> length img div 4096"
    "length img div 4096 \<le> 2 ^ 20"
    "1 \<le> unat (sb_inode_count img)"
    "unat (sb_inode_count img) \<le> 32 * unat (sb_inode_table_blocks img)"
    "unat (sb_inode_count img) \<le> 32768"
    "unat (sb_data_region_blocks img) \<le> 32768"
    "test_bit img 4096 0" "test_bit img 8192 0"
    "\<And>d. d < 12 \<Longrightarrow> ino_direct img 12288 d \<noteq> 0 \<Longrightarrow>
       unat (sb_data_region_start img) \<le> unat (ino_direct img 12288 d) \<and>
       unat (ino_direct img 12288 d) < unat (sb_data_region_start img) + unat (sb_data_region_blocks img) \<and>
       test_bit img 8192 (unat (ino_direct img 12288 d) - unat (sb_data_region_start img))"
proof -
  show v: "validate img = None" using assms by (simp add: image_ok_def)
  then have "length img mod 4096 = 0" by (auto simp: validate_def split: if_splits)
  then show "length img = 4096 * (length img div 4096)" by auto
  show "unat (4096 * sb_inode_bitmap_start img) = 4096"
    "unat (4096 * sb_data_bitmap_start img) = 8192"
    "unat (4096 * sb_inode_table_start img) = 12288"
    using assms by (simp_all add: image_ok_def)
  show "unat (sb_data_region_start img) = 3 + unat (sb_inode_table_blocks img)"
    "unat (sb_data_region_start img) + unat (sb_data_region_blocks img) \<le> length img div 4096"
    "length img div 4096 \<le> 2 ^ 20"
    "1 \<le> unat (sb_inode_count img)"
    "unat (sb_inode_count img) \<le> 32 * unat (sb_inode_table_blocks img)"
    "unat (sb_inode_count img) \<le> 32768"
    "unat (sb_data_region_blocks img) \<le> 32768"
    "test_bit img 4096 0" "test_bit img 8192 0"
    using assms by (simp_all add: image_ok_def Let_def)
  show "\<And>d. d < 12 \<Longrightarrow> ino_direct img 12288 d \<noteq> 0 \<Longrightarrow>
       unat (sb_data_region_start img) \<le> unat (ino_direct img 12288 d) \<and>
       unat (ino_direct img 12288 d) < unat (sb_data_region_start img) + unat (sb_data_region_blocks img) \<and>
       test_bit img 8192 (unat (ino_direct img 12288 d) - unat (sb_data_region_start img))"
  proof -
    fix d :: nat assume d: "d < 12" "ino_direct img 12288 d \<noteq> 0"
    have "\<forall>d \<in> {0..<12}. unat (ino_direct img 12288 d) \<noteq> 0 \<longrightarrow>
       unat (sb_data_region_start img) \<le> unat (ino_direct img 12288 d) \<and>
       unat (ino_direct img 12288 d) < unat (sb_data_region_start img) + unat (sb_data_region_blocks img) \<and>
       test_bit img 8192 (unat (ino_direct img 12288 d) - unat (sb_data_region_start img))"
      using assms unfolding image_ok_def Let_def by blast
    moreover have "d \<in> {0..<12}" using d by simp
    moreover have "unat (ino_direct img 12288 d) \<noteq> 0" using d by (simp add: unat_eq_0)
    ultimately show "unat (sb_data_region_start img) \<le> unat (ino_direct img 12288 d) \<and>
       unat (ino_direct img 12288 d) < unat (sb_data_region_start img) + unat (sb_data_region_blocks img) \<and>
       test_bit img 8192 (unat (ino_direct img 12288 d) - unat (sb_data_region_start img))"
      by blast
  qed
qed

lemma image_ok_limits:
  assumes "image_ok img"
  shows "unat (ucast (sb_inode_count img) :: u32) = unat (sb_inode_count img)"
    "unat (ucast (sb_data_region_blocks img) :: u32) = unat (sb_data_region_blocks img)"
  using image_okD(11,12)[OF assms] by (simp_all add: unsigned_ucast_eq take_bit_nat_eq_self)

subsection \<open>First fit\<close>

lemma find_upt_Some:
  "find P [0..<n] = Some i \<longleftrightarrow> i < n \<and> P i \<and> (\<forall>j<i. \<not> P j)"
  by (auto simp: find_Some_iff)

lemma find_upt_None: "find P [0..<n] = None \<longleftrightarrow> (\<forall>j<n. \<not> P j)"
  by (auto simp: find_None_iff)

lemma sorted_filter_upt: "sorted_wrt (<) (filter P [0..<n])"
  by (rule sorted_wrt_filter) simp

lemma length_filter_upt: "length (filter P [0..<n]) = card {j. j < n \<and> P j}"
proof -
  have "{i. i < length [0..<n] \<and> P ([0..<n] ! i)} = {j. j < n \<and> P j}" by auto
  then show ?thesis by (simp add: length_filter_conv_card)
qed

lemma take_filter_first:
  assumes "j < n" "P j" "j \<notin> set (take k (filter P [0..<n]))" "x \<in> set (take k (filter P [0..<n]))"
  shows "x < j"
proof -
  let ?xs = "filter P [0..<n]"
  have "j \<in> set ?xs" using assms(1,2) by simp
  then have "j \<in> set (take k ?xs) \<union> set (drop k ?xs)"
    by (metis append_take_drop_id set_append)
  then have "j \<in> set (drop k ?xs)" using assms(3) by blast
  moreover have "sorted_wrt (<) (take k ?xs @ drop k ?xs)"
    by (simp only: append_take_drop_id sorted_filter_upt)
  ultimately show ?thesis using assms(4) unfolding sorted_wrt_append by blast
qed

lemma find_free_blocks_props:
  fixes m data_bmap need
  defines "dbs \<equiv> find_free_blocks m data_bmap need"
    and "n \<equiv> unat (ucast (sb_data_region_blocks m) :: u32)"
  shows "sorted_wrt (<) dbs" "distinct dbs" "length dbs \<le> need"
    "\<And>x. x \<in> set dbs \<Longrightarrow> x < n \<and> \<not> test_bit m data_bmap x"
    "\<And>j x. j < n \<Longrightarrow> \<not> test_bit m data_bmap j \<Longrightarrow> j \<notin> set dbs \<Longrightarrow> x \<in> set dbs \<Longrightarrow> x < j"
    "length dbs = min need (card {j. j < n \<and> \<not> test_bit m data_bmap j})"
proof -
  let ?P = "\<lambda>i. \<not> test_bit m data_bmap i"
  have d: "dbs = take need (filter ?P [0..<n])" by (simp add: dbs_def n_def find_free_blocks_def)
  show s: "sorted_wrt (<) dbs" unfolding d by (intro sorted_wrt_take sorted_filter_upt)
  then show "distinct dbs" by (simp add: strict_sorted_iff)
  show "length dbs \<le> need" by (simp add: d)
  show "\<And>x. x \<in> set dbs \<Longrightarrow> x < n \<and> \<not> test_bit m data_bmap x"
    unfolding d by (auto dest: in_set_takeD)
  show "\<And>j x. j < n \<Longrightarrow> \<not> test_bit m data_bmap j \<Longrightarrow> j \<notin> set dbs \<Longrightarrow> x \<in> set dbs \<Longrightarrow> x < j"
    unfolding d by (rule take_filter_first[where P = ?P])
  show "length dbs = min need (card {j. j < n \<and> \<not> test_bit m data_bmap j})"
    by (simp add: d length_filter_upt min.commute)
qed

subsection \<open>The size check\<close>

lemma unat_need_blocks_of:
  assumes "len + 4095 < 2 ^ 44"
  shows "unat (need_blocks_of (of_nat len)) = (len + 4095) div 4096"
proof -
  have l: "len < 2 ^ 64" using assms by simp
  have "unat (of_nat len + 4096 - 1 :: u64) = len + 4095"
    using assms by (simp add: unat_word_ariths unat_of_nat take_bit_nat_eq_self)
  then have "unat ((of_nat len + 4096 - 1 :: u64) div 4096) = (len + 4095) div 4096"
    by (simp add: unat_div)
  moreover have "(len + 4095) div 4096 < 2 ^ 32" using assms by simp
  ultimately show ?thesis
    by (simp add: need_blocks_of_def unsigned_ucast_eq take_bit_nat_eq_self)
qed

lemma need_blocks_of_le_12:
  assumes "len + 4095 < 2 ^ 44"
  shows "need_blocks_of (of_nat len) \<le> 12 \<longleftrightarrow> (len + 4095) div 4096 \<le> 12"
  by (simp add: word_le_nat_alt unat_need_blocks_of[OF assms])

subsection \<open>The exits of the adder\<close>

lemma adder_validate_fail:
  "validate img = Some e \<Longrightarrow> mkfs_adder_main img fp src t1 t2 = Inl (e, img)"
  by (simp add: mkfs_adder_main_def)

lemma adder_too_large:
  assumes "validate img = None" "src_exists src" "src_regular src"
    "need_blocks_of (of_nat (length (src_bytes src))) > 12"
  shows "mkfs_adder_main img fp src t1 t2 = Inl (FileTooLarge, img)"
  using assms by (simp add: mkfs_adder_main_def Let_def)

lemma adder_not_enough:
  assumes "validate img = None" "src_exists src" "src_regular src"
    "need_blocks_of (of_nat (length (src_bytes src))) \<le> 12"
    "find_free_inode img (unat (4096 * sb_inode_bitmap_start img)) = Some idx"
    "length (find_free_blocks img (unat (4096 * sb_data_bitmap_start img))
        (unat (need_blocks_of (of_nat (length (src_bytes src))))))
      < unat (need_blocks_of (of_nat (length (src_bytes src))))"
  shows "mkfs_adder_main img fp src t1 t2 = Inl (NotEnoughDataBlocks, img)"
proof -
  have "need_blocks_of (of_nat (length (src_bytes src))) \<noteq> 0"
    using assms(6) by (auto simp: unat_eq_0)
  then show ?thesis
    using assms by (simp add: mkfs_adder_main_def Let_def not_less[symmetric])
qed

lemma adder_InrD:
  assumes "mkfs_adder_main img fp src t1 t2 = Inr r"
  defines "ibm \<equiv> unat (4096 * sb_inode_bitmap_start img)"
    and "dbm \<equiv> unat (4096 * sb_data_bitmap_start img)"
    and "itbl \<equiv> unat (4096 * sb_inode_table_start img)"
    and "fsize \<equiv> (of_nat (length (src_bytes src)) :: u64)"
  defines "need \<equiv> unat (need_blocks_of fsize)"
  defines "m1 \<equiv> foldl (\<lambda>m i. set_bit_c m dbm (db_idxs r ! i)) (set_bit_c img ibm (new_ino_idx r)) [0..<need]"
  defines "m2 \<equiv> build_inode m1 (itbl + 128 * new_ino_idx r) fsize t1 need (db_idxs r)"
  shows "validate img = None" "src_exists src" "src_regular src" "need \<le> 12"
    "find_free_inode img ibm = Some (new_ino_idx r)"
    "db_idxs r = find_free_blocks img dbm need"
    "length (db_idxs r) = need"
    "\<exists>m3. (if need \<noteq> 0 then write_file_data m2 (itbl + 128 * new_ino_idx r) need fsize (src_bytes src) [0..<need] = Some m3 else m3 = m2) \<and>
          link_root m3 itbl dbm (of_nat (new_ino_idx r) + 1) (base_name fp) t2 = Inr (out_img r, free_idx r)"
proof -
  note a0 = assms(1)[unfolded mkfs_adder_main_def Let_def, folded ibm_def dbm_def itbl_def fsize_def]
  show v: "validate img = None" using a0 by (cases "validate img") simp_all
  show e: "src_exists src" "src_regular src"
    using a0 v by (simp_all split: if_splits)
  have n: "need_blocks_of fsize \<le> 12"
    using a0 v e by (simp split: if_splits)
  then show "need \<le> 12" by (simp add: need_def word_le_nat_alt)
  obtain idx where i: "find_free_inode img ibm = Some idx"
    using a0 v e n by (cases "find_free_inode img ibm") (simp_all add: not_less[symmetric])
  have z: "need_blocks_of fsize \<noteq> 0 \<longleftrightarrow> need \<noteq> 0" by (simp add: need_def unat_eq_0)
  define dbs where "dbs = (if need \<noteq> 0 then find_free_blocks img dbm need else [])"
  have d0: "dbs = find_free_blocks img dbm need" by (simp add: dbs_def find_free_blocks_def)
  have le: "length dbs \<le> need" unfolding d0 by (rule find_free_blocks_props(3))
  note a = assms(1)[unfolded mkfs_adder_main_def Let_def, folded ibm_def dbm_def itbl_def fsize_def,
      unfolded z, folded need_def, folded dbs_def]
  have ne: "\<not> (need \<noteq> 0 \<and> length dbs < need)"
    using a v e n i by (auto split: if_splits)
  then have l: "length dbs = need" using le by auto
  have "new_ino_idx r = idx \<and> db_idxs r = dbs \<and> 
     (\<exists>m3. (if need \<noteq> 0 then write_file_data m2 (itbl + 128 * new_ino_idx r) need fsize (src_bytes src) [0..<need] = Some m3 else m3 = m2) \<and>
          link_root m3 itbl dbm (of_nat (new_ino_idx r) + 1) (base_name fp) t2 = Inr (out_img r, free_idx r))"
    using a v e n i ne unfolding m2_def m1_def
    by (auto split: if_splits option.splits sum.splits prod.splits)
  then show "find_free_inode img ibm = Some (new_ino_idx r)"
    "db_idxs r = find_free_blocks img dbm need"
    "length (db_idxs r) = need"
    "\<exists>m3. (if need \<noteq> 0 then write_file_data m2 (itbl + 128 * new_ino_idx r) need fsize (src_bytes src) [0..<need] = Some m3 else m3 = m2) \<and>
          link_root m3 itbl dbm (of_nat (new_ino_idx r) + 1) (base_name fp) t2 = Inr (out_img r, free_idx r)"
    using i d0 l by auto
qed

lemma adder_no_inode:
  assumes "validate img = None" "src_exists src" "src_regular src"
    "need_blocks_of (of_nat (length (src_bytes src))) \<le> 12"
    "find_free_inode img (unat (4096 * sb_inode_bitmap_start img)) = None"
  shows "mkfs_adder_main img fp src t1 t2 = Inl (NoFreeInodes, img)"
  using assms by (simp add: mkfs_adder_main_def Let_def not_less[symmetric])

subsection \<open>Setting the bits\<close>

lemma foldl_nth_upt: "foldl (\<lambda>m i. f m (xs ! i)) m [0..<length xs] = foldl f m xs"
proof (induction xs rule: rev_induct)
  case Nil
  then show ?case by simp
next
  case (snoc x xs)
  have "foldl (\<lambda>m i. f m ((xs @ [x]) ! i)) m [0..<length xs] = foldl (\<lambda>m i. f m (xs ! i)) m [0..<length xs]"
    by (rule foldl_cong) (simp_all add: nth_append)
  then show ?case using snoc by simp
qed

lemma length_set_bits [simp]: "length (foldl (\<lambda>m j. set_bit_c m bm j) m js) = length m"
  by (induction js arbitrary: m) simp_all

lemma same_outside_set_bits:
  "\<forall>j \<in> set js. j < 32768 \<Longrightarrow> same_outside {bm..<bm + 4096} m (foldl (\<lambda>m j. set_bit_c m bm j) m js)"
proof (induction js arbitrary: m)
  case Nil
  then show ?case by simp
next
  case (Cons j js)
  have "same_outside {bm + j div 8} m (set_bit_c m bm j)" by (rule same_outside_set_bit_c)
  moreover have "same_outside {bm..<bm + 4096} (set_bit_c m bm j) (foldl (\<lambda>m j. set_bit_c m bm j) (set_bit_c m bm j) js)"
    using Cons by simp
  moreover have "{bm + j div 8} \<union> {bm..<bm + 4096} \<subseteq> {bm..<bm + 4096}" using Cons.prems by auto
  ultimately show ?case by (simp add: same_outside_trans)
qed

lemma test_bit_set_bits:
  "\<forall>j \<in> set js. bm + j div 8 < length m \<Longrightarrow>
   test_bit (foldl (\<lambda>m j. set_bit_c m bm j) m js) bm i \<longleftrightarrow> i \<in> set js \<or> test_bit m bm i"
proof (induction js arbitrary: m)
  case Nil
  then show ?case by simp
next
  case (Cons j js)
  then show ?case by (auto simp: test_bit_set_bit_c)
qed

subsection \<open>Building the inode\<close>

lemma length_wr [simp]:
  "length (wr8 m a v8) = length m" "length (wr16 m a v16) = length m"
  "length (wr32 m a v32) = length m" "length (wr64 m a v64) = length m"
  by (simp_all add: wr8_def wr16_def wr32_def wr64_def)

lemma same_outside_store_in:
  assumes "same_outside R m m1" "{a..<a + length bs} \<subseteq> R"
  shows "same_outside R m (store m1 a bs)"
  using assms(2) by (intro same_outside_trans[OF assms(1) same_outside_store]) simp

lemma same_outside_in:
  assumes "same_outside R m m1"
  shows "{a..<a + 1} \<subseteq> R \<Longrightarrow> same_outside R m (wr8 m1 a v8)"
    "{a..<a + 2} \<subseteq> R \<Longrightarrow> same_outside R m (wr16 m1 a v16)"
    "{a..<a + 4} \<subseteq> R \<Longrightarrow> same_outside R m (wr32 m1 a v32)"
    "{a..<a + 8} \<subseteq> R \<Longrightarrow> same_outside R m (wr64 m1 a v64)"
    "{a..<a + n} \<subseteq> R \<Longrightarrow> same_outside R m (memset0 m1 a n)"
    "{ino + 120..<ino + 128} \<subseteq> R \<Longrightarrow> same_outside R m (inode_crc_finalize m1 ino)"
    "bm + j div 8 \<in> R \<Longrightarrow> same_outside R m (set_bit_c m1 bm j)"
  apply (rule same_outside_trans[OF assms same_outside_wr(1)]; simp)
  apply (rule same_outside_trans[OF assms same_outside_wr(2)]; simp)
  apply (rule same_outside_trans[OF assms same_outside_wr(3)]; simp)
  apply (rule same_outside_trans[OF assms same_outside_wr(4)]; simp)
  apply (rule same_outside_trans[OF assms same_outside_memset0]; simp)
  apply (rule same_outside_trans[OF assms same_outside_inode_crc_finalize]; simp)
  apply (rule same_outside_trans[OF assms same_outside_set_bit_c]; simp)
  done

lemma direct_loop:
  fixes dbs :: "nat list"
  assumes "ino + 128 \<le> length A" "116 \<le> ino" "k \<le> 12"
  defines "F \<equiv> foldl (\<lambda>m i. wr32 m (ino + 44 + 4 * i)
                               (ucast (sb_data_region_start m + of_nat (dbs ! i)))) A [0..<k]"
  shows "length F = length A \<and> same_outside {ino + 44..<ino + 44 + 4 * k} A F \<and>
         (\<forall>i<k. rd32 F (ino + 44 + 4 * i) = ucast (sb_data_region_start A + of_nat (dbs ! i)))"
  using assms(3) unfolding F_def
proof (induction k)
  case 0
  then show ?case by simp
next
  case (Suc k)
  let ?f = "\<lambda>m i. wr32 m (ino + 44 + 4 * i) (ucast (sb_data_region_start m + of_nat (dbs ! i)))"
  let ?F = "foldl ?f A [0..<k]"
  from Suc have ih: "length ?F = length A" "same_outside {ino + 44..<ino + 44 + 4 * k} A ?F"
    "\<forall>i<k. rd32 ?F (ino + 44 + 4 * i) = ucast (sb_data_region_start A + of_nat (dbs ! i))"
    by simp_all
  have sb: "sb_data_region_start ?F = sb_data_region_start A"
    using assms(2) by (intro same_outside_sb(10)[OF ih(2)]) (auto simp: disjoint_iff)
  have e: "foldl ?f A [0..<Suc k] = wr32 ?F (ino + 44 + 4 * k) (ucast (sb_data_region_start A + of_nat (dbs ! k)))"
    by (simp add: sb)
  have s: "same_outside {ino + 44 + 4 * k..<ino + 44 + 4 * k + 4} ?F (foldl ?f A [0..<Suc k])"
    unfolding e by (rule same_outside_wr)
  have 1: "length (foldl ?f A [0..<Suc k]) = length A"
    by (simp add: e ih(1))
  have 2: "same_outside {ino + 44..<ino + 44 + 4 * Suc k} A (foldl ?f A [0..<Suc k])"
    by (rule same_outside_trans[OF ih(2) s]) auto
  have 3: "rd32 (foldl ?f A [0..<Suc k]) (ino + 44 + 4 * i) = ucast (sb_data_region_start A + of_nat (dbs ! i))"
    if "i < Suc k" for i
  proof (cases "i = k")
    case True
    have "ino + 44 + 4 * k + 4 \<le> length ?F" using Suc.prems assms(1) ih(1) by simp
    then show ?thesis unfolding e True
      by (simp add: rd32_def wr32_def load_store_same le_word_le_bytes_id)
  next
    case False
    then have "i < k" using that by simp
    moreover have "rd32 (foldl ?f A [0..<Suc k]) (ino + 44 + 4 * i) = rd32 ?F (ino + 44 + 4 * i)"
      using \<open>i < k\<close> by (intro same_outside_rd(3)[OF s]) (auto simp: disjoint_iff)
    ultimately show ?thesis using ih(3) by simp
  qed
  show ?case using 1 2 3 by blast
qed

lemma build_inode_props:
  fixes dbs :: "nat list" and fsize t :: u64
  assumes "ino + 128 \<le> length m" "116 \<le> ino" "need \<le> 12"
  defines "m' \<equiv> build_inode m ino fsize t need dbs"
  shows "length m' = length m" "same_outside {ino..<ino + 128} m m'"
    "ino_mode m' ino = 0x8000" "ino_links m' ino = 1" "ino_size_bytes m' ino = fsize"
    "\<And>i. i < need \<Longrightarrow> ino_direct m' ino i = ucast (sb_data_region_start m + of_nat (dbs ! i))"
    "\<And>i. need \<le> i \<Longrightarrow> i < 12 \<Longrightarrow> ino_direct m' ino i = 0"
proof -
  define A where "A = wr64 (wr64 (wr64 (wr64 (wr32 (wr32 (wr16 (wr16 (memset0 m ino 128) ino 0x8000)
     (ino + 2) 1) (ino + 4) 0) (ino + 8) 0) (ino + 12) fsize) (ino + 36) t) (ino + 28) t) (ino + 20) t"
  define F where "F = foldl (\<lambda>m i. wr32 m (ino + 44 + 4 * i)
                               (ucast (sb_data_region_start m + of_nat (dbs ! i)))) A [0..<need]"
  have m': "m' = inode_crc_finalize F ino"
    by (simp add: m'_def build_inode_def Let_def F_def A_def)
  have lA: "length A = length m" by (simp add: A_def)
  have sA: "same_outside {ino..<ino + 128} m A"
    unfolding A_def
    by (intro same_outside_in same_outside_refl) auto
  have fA: "rd16 A ino = 0x8000" "rd16 A (ino + 2) = 1" "rd64 A (ino + 12) = fsize"
    using assms(1) by (simp_all add: A_def field_simps_mem)
  have zA: "rd32 A (ino + 44 + 4 * i) = 0" if "i < 12" for i
    using assms(1) that by (simp add: A_def field_simps_mem)
  have sbA: "sb_data_region_start A = sb_data_region_start m"
    using assms(2) by (intro same_outside_sb(10)[OF sA]) (auto simp: disjoint_iff)
  have "ino + 128 \<le> length A" using assms(1) lA by simp
  note dl = direct_loop[OF this assms(2,3), of dbs, folded F_def]
  have lF: "length F = length A" and sF: "same_outside {ino + 44..<ino + 44 + 4 * need} A F"
    and dF: "\<And>i. i < need \<Longrightarrow> rd32 F (ino + 44 + 4 * i) = ucast (sb_data_region_start A + of_nat (dbs ! i))"
    using dl by blast+
  have sC: "same_outside {ino + 120..<ino + 128} F m'"
    unfolding m' by (rule same_outside_inode_crc_finalize)
  show "length m' = length m" by (simp add: m' lF lA)
  show "same_outside {ino..<ino + 128} m m'"
    using assms(3) by (intro same_outside_trans[OF same_outside_trans[OF sA sF subset_refl] sC]) auto
  have sAC: "same_outside ({ino + 44..<ino + 44 + 4 * need} \<union> {ino + 120..<ino + 128}) A m'"
    by (rule same_outside_trans[OF sF sC]) simp
  show "ino_mode m' ino = 0x8000"
    using same_outside_rd(2)[OF sAC, of ino] fA by (simp add: ino_mode_def disjoint_iff)
  show "ino_links m' ino = 1"
    using same_outside_rd(2)[OF sAC, of "ino + 2"] fA by (simp add: ino_links_def disjoint_iff)
  show "ino_size_bytes m' ino = fsize"
    using same_outside_rd(4)[OF sAC, of "ino + 12"] fA by (simp add: ino_size_bytes_def disjoint_iff)
  show "ino_direct m' ino i = ucast (sb_data_region_start m + of_nat (dbs ! i))" if "i < need" for i
  proof -
    have "rd32 m' (ino + 44 + 4 * i) = rd32 F (ino + 44 + 4 * i)"
      using that assms(3) by (intro same_outside_rd(3)[OF sC]) (auto simp: disjoint_iff)
    then show ?thesis using dF[OF that] sbA by (simp add: ino_direct_def)
  qed
  show "ino_direct m' ino i = 0" if "need \<le> i" "i < 12" for i
  proof -
    have "rd32 m' (ino + 44 + 4 * i) = rd32 A (ino + 44 + 4 * i)"
      using that by (intro same_outside_rd(3)[OF sAC]) (auto simp: disjoint_iff)
    then show ?thesis using zA[OF that(2)] by (simp add: ino_direct_def)
  qed
qed

subsection \<open>Writing the file data\<close>

lemma load_store_memset0:
  assumes "length c \<le> n" "blk + n \<le> length m"
  shows "load (store (memset0 m blk n) blk c) blk n = c @ replicate (n - length c) 0"
proof -
  have "load (store (memset0 m blk n) blk c) blk n
      = load (store (memset0 m blk n) blk c) blk (length c + (n - length c))"
    using assms by simp
  also have "\<dots> = load (store (memset0 m blk n) blk c) blk (length c) @
                  load (store (memset0 m blk n) blk c) (blk + length c) (n - length c)"
    by (simp add: load_def take_add drop_drop add.commute)
  also have "load (store (memset0 m blk n) blk c) blk (length c) = c"
    using assms by (simp add: load_store_same)
  also have "load (store (memset0 m blk n) blk c) (blk + length c) (n - length c)
      = load (memset0 m blk n) (blk + length c) (n - length c)"
    by (simp add: load_store_disj)
  also have "\<dots> = replicate (n - length c) 0"
    using assms by (simp add: memset0_def load_store_sub load_replicate)
  finally show ?thesis .
qed

lemma write_file_data_step:
  fixes P :: "nat \<Rightarrow> nat"
  assumes len: "length bytes + 4095 < 2 ^ 44" and need: "need = (length bytes + 4095) div 4096"
    and n12: "need \<le> 12"
    and blocks: "\<And>i. i < need \<Longrightarrow> unat (4096 * ino_direct m ino i) = 4096 * P i \<and>
                   ino + 128 \<le> 4096 * P i \<and> 4096 * P i + 4096 \<le> length m"
    and inj: "inj_on P {..<need}"
    and j: "j \<le> need"
    and mj: "length mj = length m" "same_outside (\<Union>i\<in>{..<j}. {4096 * P i..<4096 * P i + 4096}) m mj"
      "\<And>i. i < j \<Longrightarrow> load mj (4096 * P i) 4096 = chunk bytes i"
  shows "\<exists>m'. write_file_data mj ino need (of_nat (length bytes)) (drop (4096 * j) bytes) [j..<need] = Some m' \<and>
          length m' = length m \<and>
          same_outside (\<Union>i\<in>{..<need}. {4096 * P i..<4096 * P i + 4096}) m m' \<and>
          (\<forall>i<need. load m' (4096 * P i) 4096 = chunk bytes i)"
  using j mj
proof (induction "need - j" arbitrary: j mj)
  case 0
  then have "j = need" by simp
  then show ?case using 0 by simp
next
  case (Suc k)
  then have jn: "j < need" by simp
  let ?len = "length bytes"
  let ?rest = "drop (4096 * j) bytes"
  have lt: "4096 * j < ?len" using jn need by simp
  have d: "ino_direct mj ino j = ino_direct m ino j"
    unfolding ino_direct_def
  proof (rule same_outside_rd(3)[OF Suc.prems(3)])
    have "x < 4096 * P i" if "i < j" "x < ino + 44 + 4 * j + 4" for i x
    proof -
      have "ino + 128 \<le> 4096 * P i" using blocks[of i] that(1) jn by simp
      then show ?thesis using that(2) jn n12 by simp
    qed
    then show "{ino + 44 + 4 * j..<ino + 44 + 4 * j + 4} \<inter> (\<Union>i\<in>{..<j}. {4096 * P i..<4096 * P i + 4096}) = {}"
      by (fastforce simp: disjoint_iff)
  qed
  have blk: "unat (4096 * ino_direct mj ino j) = 4096 * P j" using blocks[OF jn] d by simp
  have inr: "4096 * P j + 4096 \<le> length mj" using blocks[OF jn] Suc.prems(2) by simp
  define toread where "toread = (if j + 1 < need then 4096 else unat (of_nat ?len - of_nat j * 4096 :: u64))"
  have last: "unat (of_nat ?len - of_nat j * 4096 :: u64) = ?len - 4096 * j"
  proof -
    have "(of_nat ?len - of_nat j * 4096 :: u64) = of_nat (?len - 4096 * j)"
      using lt by (simp add: of_nat_diff mult.commute)
    moreover have "?len - 4096 * j < 2 ^ 64" using len by simp
    ultimately show ?thesis by (simp add: unat_of_nat take_bit_nat_eq_self)
  qed
  have full: "4096 * (j + 1) \<le> ?len" if "j + 1 < need"
    using that need by simp
  have tk: "take toread ?rest = take 4096 ?rest"
  proof (cases "j + 1 < need")
    case True
    then show ?thesis by (simp add: toread_def)
  next
    case False
    then have "need = j + 1" using jn by simp
    then have "?len - 4096 * j \<le> 4096" using need by simp
    then show ?thesis using False by (simp add: toread_def last)
  qed
  have ok: "\<not> (toread > 0 \<and> length (take toread ?rest) \<noteq> toread)"
  proof (cases "j + 1 < need")
    case True
    then show ?thesis using full[OF True] by (simp add: toread_def)
  next
    case False
    then show ?thesis by (simp add: toread_def last)
  qed
  have dr: "drop toread ?rest = drop (4096 * Suc j) bytes"
  proof (cases "j + 1 < need")
    case True
    then show ?thesis by (simp add: toread_def add.commute)
  next
    case False
    then have "need = j + 1" using jn by simp
    then have "?len \<le> 4096 * Suc j" using need by simp
    then show ?thesis using False lt by (simp add: toread_def last)
  qed
  define mj' where "mj' = store (memset0 mj (4096 * P j) 4096) (4096 * P j) (take 4096 ?rest)"
  have step: "write_file_data mj ino need (of_nat ?len) ?rest [j..<need]
      = write_file_data mj' ino need (of_nat ?len) (drop (4096 * Suc j) bytes) [Suc j..<need]"
  proof -
    have "write_file_data mj ino need (of_nat ?len) ?rest (j # [Suc j..<need]) =
      (if toread > 0 \<and> length (take toread ?rest) \<noteq> toread then None
       else write_file_data (store (memset0 mj (4096 * P j) 4096) (4096 * P j) (take toread ?rest))
              ino need (of_nat ?len) (drop toread ?rest) [Suc j..<need])"
      unfolding write_file_data.simps Let_def blk toread_def by (rule refl)
    also have "\<dots> = write_file_data mj' ino need (of_nat ?len) (drop (4096 * Suc j) bytes) [Suc j..<need]"
      using ok by (simp only: if_False tk dr mj'_def)
    finally show ?thesis by (simp only: upt_conv_Cons[OF jn])
  qed
  have l': "length mj' = length m" by (simp add: mj'_def Suc.prems(2))
  have so1: "same_outside {4096 * P j..<4096 * P j + 4096} mj mj'"
    unfolding mj'_def
    by (intro same_outside_store_in same_outside_memset0) auto
  have so: "same_outside (\<Union>i\<in>{..<Suc j}. {4096 * P i..<4096 * P i + 4096}) m mj'"
    by (rule same_outside_trans[OF Suc.prems(3) so1]) (auto simp: less_Suc_eq)
  have new: "load mj' (4096 * P j) 4096 = chunk bytes j"
    unfolding mj'_def chunk_def using inr by (intro load_store_memset0) simp_all
  have old: "load mj' (4096 * P i) 4096 = chunk bytes i" if "i < Suc j" for i
  proof (cases "i = j")
    case True
    then show ?thesis using new by simp
  next
    case False
    then have ij: "i < j" using that by simp
    then have "P i \<noteq> P j" using inj jn by (auto simp: inj_on_def)
    then have "{4096 * P i..<4096 * P i + 4096} \<inter> {4096 * P j..<4096 * P j + 4096} = {}"
      by (auto simp: disjoint_iff)
    then have "load mj' (4096 * P i) 4096 = load mj (4096 * P i) 4096"
      by (rule same_outside_load[OF so1])
    then show ?thesis using Suc.prems(4)[OF ij] by simp
  qed
  have "k = need - Suc j" using Suc.hyps(2) by simp
  from Suc.hyps(1)[OF this _ l' so old] jn
  show ?case unfolding step by simp
qed

subsection \<open>Linking into the root directory\<close>

lemma length_namebuf_of [simp]: "length (namebuf_of base) = 58"
  by (simp add: namebuf_of_def Let_def)

lemma namelen_of_le: "namelen_of base \<le> 58"
  by (simp add: namelen_of_def)

lemma namebuf_of_eq:
  "namebuf_of base = map of_char (take 58 base) @ replicate (58 - length (take 58 base)) 0"
  by (auto simp: namebuf_of_def Let_def store_def min_def)

lemma namebuf_split:
  "load (namebuf_of base) 0 (namelen_of base) @ replicate (58 - namelen_of base) 0 = namebuf_of base"
  by (auto simp: namebuf_of_eq namelen_of_def load_def min_def)

lemma length_new_dirent [simp]: "length (new_dirent i nb nl) = 64"
  by (simp add: new_dirent_def Let_def)

lemma new_dirent_fields:
  "rd32 (new_dirent i (namebuf_of base) (namelen_of base)) 0 = i"
  "rd8 (new_dirent i (namebuf_of base) (namelen_of base)) 4 = 1"
  "load (new_dirent i (namebuf_of base) (namelen_of base)) 5 58 = namebuf_of base"
proof -
  let ?ne = "new_dirent i (namebuf_of base) (namelen_of base)"
  let ?nm = "load (namebuf_of base) 0 (namelen_of base)"
  have l: "length ?nm = namelen_of base" using namelen_of_le[of base] by (simp add: load_def)
  have n: "5 + namelen_of base \<le> 64" using namelen_of_le[of base] by simp
  show "rd32 ?ne 0 = i" "rd8 ?ne 4 = 1"
    using n by (simp_all add: new_dirent_def Let_def field_simps_mem l)
  have "load ?ne 5 58 = load (store (wr8 (wr32 (replicate 64 0) 0 i) 4 1) 5 ?nm) 5 (namelen_of base + (58 - namelen_of base))"
    using namelen_of_le[of base] by (simp add: new_dirent_def Let_def load_dirent_checksum_finalize)
  also have "\<dots> = load (store (wr8 (wr32 (replicate 64 0) 0 i) 4 1) 5 ?nm) 5 (namelen_of base) @
                  load (store (wr8 (wr32 (replicate 64 0) 0 i) 4 1) 5 ?nm) (5 + namelen_of base) (58 - namelen_of base)"
    by (simp add: load_def take_add drop_drop add.commute)
  also have "load (store (wr8 (wr32 (replicate 64 0) 0 i) 4 1) 5 ?nm) 5 (namelen_of base) = ?nm"
    using n by (simp add: load_store_same l)
  also have "load (store (wr8 (wr32 (replicate 64 0) 0 i) 4 1) 5 ?nm) (5 + namelen_of base) (58 - namelen_of base)
     = replicate (58 - namelen_of base) 0"
    using n by (simp add: field_simps_mem l)
  finally show "load ?ne 5 58 = namebuf_of base" by (simp add: namebuf_split)
qed

lemma stored_dirent:
  assumes "e + 64 \<le> length m"
  shows "de_inode_no (store m e (new_dirent i (namebuf_of base) (namelen_of base))) e = i"
    "de_type (store m e (new_dirent i (namebuf_of base) (namelen_of base))) e = 1"
    "de_name (store m e (new_dirent i (namebuf_of base) (namelen_of base))) e = namebuf_of base"
  using assms new_dirent_fields[of i base]
  by (simp_all add: de_inode_no_def de_type_def de_name_def rd32_def rd8_def load_store_sub)

lemma update_root_props:
  fixes now :: u64
  assumes "root + 128 \<le> length m"
  defines "m' \<equiv> update_root m root now"
  shows "length m' = length m" "same_outside {root..<root + 128} m m'"
    "ino_links m' root = ino_links m root + 1"
    "ino_size_bytes m' root = ino_size_bytes m root + 64"
    "ino_mode m' root = ino_mode m root"
    "\<And>d. d < 12 \<Longrightarrow> ino_direct m' root d = ino_direct m root d"
proof -
  define A where "A = wr16 (wr64 (wr64 (wr64 m (root + 12) (ino_size_bytes m root + 64)) (root + 36) now)
     (root + 28) now) (root + 2) (ino_links (wr64 (wr64 (wr64 m (root + 12) (ino_size_bytes m root + 64)) (root + 36) now)
     (root + 28) now) root + 1)"
  have m': "m' = inode_crc_finalize A root" by (simp add: m'_def update_root_def Let_def A_def)
  show "length m' = length m" by (simp add: m' A_def)
  have l: "ino_links (wr64 (wr64 (wr64 m (root + 12) (ino_size_bytes m root + 64)) (root + 36) now)
     (root + 28) now) root = ino_links m root"
    by (simp add: ino_links_def field_simps_mem)
  have sA: "same_outside ({root + 2..<root + 4} \<union> {root + 12..<root + 20} \<union> {root + 28..<root + 44}) m A"
    unfolding A_def by (intro same_outside_in same_outside_refl) auto
  have sC: "same_outside {root + 120..<root + 128} A m'"
    unfolding m' by (rule same_outside_inode_crc_finalize)
  have s: "same_outside ({root + 2..<root + 4} \<union> {root + 12..<root + 20} \<union> {root + 28..<root + 44} \<union> {root + 120..<root + 128}) m m'"
    by (rule same_outside_trans[OF sA sC]) simp
  show "same_outside {root..<root + 128} m m'"
    by (rule same_outside_mono[OF s]) auto
  have "rd16 m' (root + 2) = rd16 A (root + 2)"
    by (intro same_outside_rd(2)[OF sC]) (auto simp: disjoint_iff)
  then show "ino_links m' root = ino_links m root + 1"
    using assms(1) unfolding A_def l by (simp add: ino_links_def field_simps_mem)
  have "rd64 m' (root + 12) = rd64 A (root + 12)"
    by (intro same_outside_rd(4)[OF sC]) (auto simp: disjoint_iff)
  then show "ino_size_bytes m' root = ino_size_bytes m root + 64"
    using assms(1) unfolding A_def l by (simp add: ino_size_bytes_def[of _ root] field_simps_mem)
  show "ino_mode m' root = ino_mode m root"
    unfolding ino_mode_def by (intro same_outside_rd(2)[OF s]) (auto simp: disjoint_iff)
  show "ino_direct m' root d = ino_direct m root d" if "d < 12" for d
    unfolding ino_direct_def using that by (intro same_outside_rd(3)[OF s]) (auto simp: disjoint_iff)
qed

lemma find_slot_Some:
  "find_slot m root ds = Some e \<Longrightarrow>
   \<exists>d \<in> set ds. \<exists>i<64. ino_direct m root d \<noteq> 0 \<and>
     e = unat (4096 * ino_direct m root d) + i * 64 \<and> de_inode_no m e = 0"
proof (induction ds)
  case Nil
  then show ?case by simp
next
  case (Cons d ds)
  show ?case
  proof (cases "find (\<lambda>i. de_inode_no m (unat (4096 * ino_direct m root d) + i * 64) = 0) [0..<64]")
    case None
    then show ?thesis using Cons by (auto simp: Let_def split: if_splits)
  next
    case (Some i)
    then have "i < 64" "de_inode_no m (unat (4096 * ino_direct m root d) + i * 64) = 0"
      by (simp_all add: find_upt_Some)
    then show ?thesis using Cons.prems Some by (auto simp: Let_def split: if_splits)
  qed
qed

lemma unat_blk:
  fixes d :: u32
  assumes "unat d < 2 ^ 20"
  shows "unat (4096 * d) = 4096 * unat d"
  using assms by (simp add: unat_word_ariths)

lemma image_ok_geom:
  assumes "image_ok m"
  defines "drs \<equiv> unat (sb_data_region_start m)" and "drb \<equiv> unat (sb_data_region_blocks m)"
  shows "16384 \<le> 4096 * drs" "4096 * (drs + drb) \<le> length m" "drs + drb \<le> 2 ^ 20"
    "drb \<le> 32768" "12288 \<le> length m"
proof -
  note d = image_okD[OF assms(1)]
  have "1 \<le> unat (sb_inode_table_blocks m)" using d(9,10) by simp
  then show "16384 \<le> 4096 * drs" using d(6) by (simp add: drs_def)
  show "4096 * (drs + drb) \<le> length m" using d(2,7) by (simp add: drs_def drb_def)
  then show "12288 \<le> length m" using \<open>16384 \<le> 4096 * drs\<close> by simp
  show "drs + drb \<le> 2 ^ 20" using d(7,8) by (simp add: drs_def drb_def)
  show "drb \<le> 32768" using d(12) by (simp add: drb_def)
qed

lemma root_block_addr:
  assumes "image_ok m" "d < 12" "ino_direct m 12288 d \<noteq> 0"
  defines "p \<equiv> unat (ino_direct m 12288 d)"
  shows "unat (4096 * ino_direct m 12288 d) = 4096 * p"
    "unat (sb_data_region_start m) \<le> p"
    "p < unat (sb_data_region_start m) + unat (sb_data_region_blocks m)"
    "test_bit m 8192 (p - unat (sb_data_region_start m))"
proof -
  note g = image_ok_geom[OF assms(1)]
  note r = image_okD(15)[OF assms(1-3), folded p_def]
  show "unat (sb_data_region_start m) \<le> p"
    "p < unat (sb_data_region_start m) + unat (sb_data_region_blocks m)"
    "test_bit m 8192 (p - unat (sb_data_region_start m))"
    using r by simp_all
  have "p < 2 ^ 20" using r g(3) by simp
  then show "unat (4096 * ino_direct m 12288 d) = 4096 * p"
    unfolding p_def by (rule unat_blk)
qed

lemma link_root_slot:
  fixes ino_no :: u32 and base :: string and now :: u64
  assumes ok: "image_ok m" and fs: "find_slot m 12288 [0..<12] = Some e"
  defines "out \<equiv> update_root (store m e (new_dirent ino_no (namebuf_of base) (namelen_of base))) 12288 now"
  shows "link_root m 12288 8192 ino_no base now = Inr (out, None)"
    "length out = length m"
    "same_outside ({12288..<12416} \<union> {e..<e + 64}) m out"
    "\<exists>d<12. \<exists>i<64. ino_direct m 12288 d \<noteq> 0 \<and> e = 4096 * unat (ino_direct m 12288 d) + i * 64"
    "de_inode_no m e = 0"
    "de_inode_no out e = ino_no" "de_type out e = 1" "de_name out e = namebuf_of base"
    "ino_links out 12288 = ino_links m 12288 + 1"
    "ino_size_bytes out 12288 = ino_size_bytes m 12288 + 64"
    "\<And>d. d < 12 \<Longrightarrow> ino_direct out 12288 d = ino_direct m 12288 d"
proof -
  note g = image_ok_geom[OF ok]
  let ?ne = "new_dirent ino_no (namebuf_of base) (namelen_of base)"
  let ?m1 = "store m e ?ne"
  show "link_root m 12288 8192 ino_no base now = Inr (out, None)"
    by (simp add: link_root_def Let_def fs out_def)
  obtain d i where di: "d < 12" "i < 64" "ino_direct m 12288 d \<noteq> 0"
    "e = unat (4096 * ino_direct m 12288 d) + i * 64" "de_inode_no m e = 0"
    using find_slot_Some[OF fs] by auto
  note b = root_block_addr[OF ok di(1,3)]
  have e: "e = 4096 * unat (ino_direct m 12288 d) + i * 64" using di(4) b(1) by simp
  then show "\<exists>d<12. \<exists>i<64. ino_direct m 12288 d \<noteq> 0 \<and> e = 4096 * unat (ino_direct m 12288 d) + i * 64"
    using di by blast
  show "de_inode_no m e = 0" by (rule di(5))
  have lo: "16384 \<le> e" using e g(1) b(2) by simp
  have "4096 * (unat (ino_direct m 12288 d) + 1) \<le> length m" using g(2) b(3) by simp
  then have hi: "e + 64 \<le> length m" using e di(2) by simp
  have r: "12288 + 128 \<le> length ?m1" using g(5) lo hi by simp
  note u = update_root_props[OF r, where now = now, folded out_def]
  show "length out = length m" using u(1) by simp
  have s1: "same_outside {e..<e + 64} m ?m1"
    using same_outside_store[of e ?ne m] by simp
  show "same_outside ({12288..<12416} \<union> {e..<e + 64}) m out"
    by (rule same_outside_trans[OF s1 u(2)]) auto
  have fr: "\<And>b k. {b..<b + k} \<inter> {12288..<12288 + 128} = {} \<Longrightarrow> load out b k = load ?m1 b k"
    by (rule same_outside_load[OF u(2)])
  have "load out e 4 = load ?m1 e 4" "load out (e + 4) 1 = load ?m1 (e + 4) 1"
    "load out (e + 5) 58 = load ?m1 (e + 5) 58"
    using lo by (intro fr; auto simp: disjoint_iff)+
  then show "de_inode_no out e = ino_no" "de_type out e = 1" "de_name out e = namebuf_of base"
    using stored_dirent[OF hi, of ino_no base]
    by (simp_all add: de_inode_no_def de_type_def de_name_def rd32_def rd8_def)
  have "ino_links ?m1 12288 = ino_links m 12288"
    unfolding ino_links_def using lo by (intro same_outside_rd(2)[OF s1]) (auto simp: disjoint_iff)
  then show "ino_links out 12288 = ino_links m 12288 + 1" using u(3) by simp
  have "ino_size_bytes ?m1 12288 = ino_size_bytes m 12288"
    unfolding ino_size_bytes_def using lo by (intro same_outside_rd(4)[OF s1]) (auto simp: disjoint_iff)
  then show "ino_size_bytes out 12288 = ino_size_bytes m 12288 + 64" using u(4) by simp
  show "ino_direct out 12288 d = ino_direct m 12288 d" if "d < 12" for d
  proof -
    have "ino_direct ?m1 12288 d = ino_direct m 12288 d"
      unfolding ino_direct_def using lo that
      by (intro same_outside_rd(3)[OF s1]) (auto simp: disjoint_iff)
    then show ?thesis using u(6)[OF that] by simp
  qed
qed

lemma link_root_ext:
  fixes ino_no :: u32 and base :: string and now :: u64
  assumes ok: "image_ok m" and fs: "find_slot m 12288 [0..<12] = None"
    and sl: "find (\<lambda>d. ino_direct m 12288 d = 0) [0..<12] = Some slot"
    and fr: "find (\<lambda>i. \<not> test_bit m 8192 i) [0..<unat (ucast (sb_data_region_blocks m) :: u32)] = Some f"
  defines "drs \<equiv> unat (sb_data_region_start m)"
  defines "blk \<equiv> 4096 * (drs + f)"
  defines "out \<equiv> update_root (store (memset0 (wr32 (set_bit_c m 8192 f) (12288 + 44 + 4 * slot)
      (ucast (sb_data_region_start m + of_nat f))) blk 4096) blk
      (new_dirent ino_no (namebuf_of base) (namelen_of base))) 12288 now"
  shows "link_root m 12288 8192 ino_no base now = Inr (out, Some f)"
    "length out = length m"
    "same_outside ({8192 + f div 8} \<union> {12288..<12416} \<union> {blk..<blk + 4096}) m out"
    "slot < 12" "ino_direct m 12288 slot = 0"
    "f < unat (sb_data_region_blocks m)" "\<not> test_bit m 8192 f" "\<And>j. j < f \<Longrightarrow> test_bit m 8192 j"
    "unat (ino_direct out 12288 slot) = drs + f"
    "unat (4096 * ino_direct out 12288 slot) = blk"
    "\<And>d. d < 12 \<Longrightarrow> d \<noteq> slot \<Longrightarrow> ino_direct out 12288 d = ino_direct m 12288 d"
    "de_inode_no out blk = ino_no" "de_type out blk = 1" "de_name out blk = namebuf_of base"
    "ino_links out 12288 = ino_links m 12288 + 1"
    "ino_size_bytes out 12288 = ino_size_bytes m 12288 + 64"
    "\<And>j. j < 32768 \<Longrightarrow> test_bit out 8192 j \<longleftrightarrow> j = f \<or> test_bit m 8192 j"
    "\<And>i. 1 \<le> i \<Longrightarrow> i < 64 \<Longrightarrow> de_inode_no out (blk + i * 64) = 0"
    "\<And>d. d < slot \<Longrightarrow> ino_direct m 12288 d \<noteq> 0"
proof -
  note g = image_ok_geom[OF ok, folded drs_def]
  note lim = image_ok_limits[OF ok]
  let ?ne = "new_dirent ino_no (namebuf_of base) (namelen_of base)"
  let ?abs = "ucast (sb_data_region_start m + of_nat f) :: u32"
  define m1 where "m1 = set_bit_c m 8192 f"
  define m2 where "m2 = wr32 m1 (12288 + 44 + 4 * slot) ?abs"
  define m4 where "m4 = store (memset0 m2 blk 4096) blk ?ne"
  have out: "out = update_root m4 12288 now" by (simp add: out_def m4_def m2_def m1_def)
  show slot: "slot < 12" "ino_direct m 12288 slot = 0"
    using sl by (simp_all add: find_upt_Some)
  show "\<And>d. d < slot \<Longrightarrow> ino_direct m 12288 d \<noteq> 0"
    using sl by (simp add: find_upt_Some)
  show f: "f < unat (sb_data_region_blocks m)" "\<not> test_bit m 8192 f" "\<And>j. j < f \<Longrightarrow> test_bit m 8192 j"
    using fr by (simp_all add: find_upt_Some lim)
  have f15: "f < 32768" using f(1) g(4) by simp
  have s1: "same_outside {8192 + f div 8} m m1" unfolding m1_def by (rule same_outside_set_bit_c)
  have sb1: "sb_data_region_start m1 = sb_data_region_start m"
    "sb_data_region_blocks m1 = sb_data_region_blocks m"
    by (rule same_outside_sb[OF s1], simp)+
  have "unat (sb_data_region_start m + of_nat f) = drs + f"
    using g(3) f(1) by (simp add: unat_word_ariths unat_of_nat take_bit_nat_eq_self drs_def)
  then have abs: "unat ?abs = drs + f"
    using g(3) f(1) by (simp add: unsigned_ucast_eq take_bit_nat_eq_self)
  have "unat ?abs < 2 ^ 20" using abs g(3) f(1) by simp
  then have ablk: "unat (4096 * ?abs) = blk" using abs by (simp add: unat_blk blk_def)
  show "link_root m 12288 8192 ino_no base now = Inr (out, Some f)"
    by (simp add: link_root_def Let_def fs sl fr sb1[unfolded m1_def] ablk out_def)
  have blo: "16384 \<le> blk" using g(1) by (simp add: blk_def)
  have bhi: "blk + 4096 \<le> length m" using g(2) f(1) by (simp add: blk_def)
  have l4: "length m4 = length m" by (simp add: m4_def m2_def m1_def)
  have r: "12288 + 128 \<le> length m4" using l4 blo bhi by simp
  note u = update_root_props[OF r, where now = now, folded out]
  show "length out = length m" using u(1) l4 by simp
  have s2: "same_outside {12288 + 44 + 4 * slot..<12288 + 44 + 4 * slot + 4} m1 m2"
    unfolding m2_def by (rule same_outside_wr)
  have s4: "same_outside {blk..<blk + 4096} m2 m4"
    unfolding m4_def by (intro same_outside_store_in same_outside_memset0) auto
  have s12: "same_outside ({8192 + f div 8} \<union> {12288..<12416}) m m2"
    using slot(1) by (intro same_outside_trans[OF s1 s2]) auto
  have s14: "same_outside ({8192 + f div 8} \<union> {12288..<12416} \<union> {blk..<blk + 4096}) m m4"
    by (rule same_outside_trans[OF s12 s4]) simp
  show so: "same_outside ({8192 + f div 8} \<union> {12288..<12416} \<union> {blk..<blk + 4096}) m out"
    by (rule same_outside_trans[OF s14 u(2)]) auto
  have d2: "rd32 m2 (12288 + 44 + 4 * slot) = ?abs"
    using slot(1) blo bhi unfolding m2_def m1_def
    by (simp add: rd32_def wr32_def load_store_same le_word_le_bytes_id)
  have d4: "ino_direct m4 12288 d = ino_direct m2 12288 d" if "d < 12" for d
    unfolding ino_direct_def using that blo
    by (intro same_outside_rd(3)[OF s4]) (auto simp: disjoint_iff)
  have ds: "ino_direct out 12288 slot = ?abs"
    using u(6)[OF slot(1)] d4[OF slot(1)] d2 by (simp add: ino_direct_def)
  show "unat (ino_direct out 12288 slot) = drs + f" using ds abs by simp
  show "unat (4096 * ino_direct out 12288 slot) = blk" using ds ablk by simp
  show "ino_direct out 12288 d = ino_direct m 12288 d" if "d < 12" "d \<noteq> slot" for d
  proof -
    have "ino_direct m2 12288 d = ino_direct m1 12288 d"
      unfolding ino_direct_def using that
      by (intro same_outside_rd(3)[OF s2]) (auto simp: disjoint_iff)
    moreover have "ino_direct m1 12288 d = ino_direct m 12288 d"
      unfolding ino_direct_def using that f15
      by (intro same_outside_rd(3)[OF s1]) (auto simp: disjoint_iff)
    ultimately show ?thesis using u(6)[OF that(1)] d4[OF that(1)] by simp
  qed
  have fr: "\<And>b k. {b..<b + k} \<inter> {12288..<12288 + 128} = {} \<Longrightarrow> load out b k = load m4 b k"
    by (rule same_outside_load[OF u(2)])
  have "load out blk 4 = load m4 blk 4" "load out (blk + 4) 1 = load m4 (blk + 4) 1"
    "load out (blk + 5) 58 = load m4 (blk + 5) 58"
    using blo by (intro fr; auto simp: disjoint_iff)+
  moreover have "blk + 64 \<le> length (memset0 m2 blk 4096)"
    using bhi by (simp add: m2_def m1_def)
  ultimately show "de_inode_no out blk = ino_no" "de_type out blk = 1" "de_name out blk = namebuf_of base"
    using stored_dirent[of blk "memset0 m2 blk 4096" ino_no base]
    by (simp_all add: de_inode_no_def de_type_def de_name_def rd32_def rd8_def m4_def)
  show "de_inode_no out (blk + i * 64) = 0" if "1 \<le> i" "i < 64" for i
  proof -
    have "load out (blk + i * 64) 4 = load m4 (blk + i * 64) 4"
      using blo by (intro fr) (auto simp: disjoint_iff)
    also have "\<dots> = load (memset0 m2 blk 4096) (blk + i * 64) 4"
      unfolding m4_def using that by (intro load_store_disj) simp
    also have "\<dots> = replicate 4 0"
      using that bhi by (simp add: memset0_def load_store_sub load_replicate m2_def m1_def)
    finally show ?thesis by (simp add: de_inode_no_def rd32_def)
  qed
  have sl4: "same_outside ({8192 + f div 8} \<union> {12288 + 44..<12288 + 92} \<union> {blk..<blk + 4096}) m m4"
    using slot(1) by (intro same_outside_trans[OF same_outside_trans[OF s1 s2 subset_refl] s4]) auto
  have "ino_links m4 12288 = ino_links m 12288"
    unfolding ino_links_def using blo f15 by (intro same_outside_rd(2)[OF sl4]) (auto simp: disjoint_iff)
  then show "ino_links out 12288 = ino_links m 12288 + 1" using u(3) by simp
  have "ino_size_bytes m4 12288 = ino_size_bytes m 12288"
    unfolding ino_size_bytes_def using blo f15 by (intro same_outside_rd(4)[OF sl4]) (auto simp: disjoint_iff)
  then show "ino_size_bytes out 12288 = ino_size_bytes m 12288 + 64" using u(4) by simp
  show "test_bit out 8192 j \<longleftrightarrow> j = f \<or> test_bit m 8192 j" if "j < 32768" for j
  proof -
    have s: "same_outside ({12288..<12416} \<union> {blk..<blk + 4096}) m1 out"
      using slot(1) by (intro same_outside_trans[OF same_outside_trans[OF s2 s4 subset_refl] u(2)]) auto
    have "test_bit out 8192 j = test_bit m1 8192 j"
      using that blo by (intro same_outside_test_bit[OF s]) auto
    moreover have "8192 + f div 8 < length m" using g(5) f15 by simp
    ultimately show ?thesis unfolding m1_def by (simp add: test_bit_set_bit_c)
  qed
qed

subsection \<open>The layout is kept\<close>

lemma image_ok_preserved':
  assumes ok: "image_ok m" and so: "same_outside R m m'" and sb: "{0..<112} \<inter> R = {}"
    and b0: "test_bit m' 4096 0"
    and bits: "\<And>j. j < 32768 \<Longrightarrow> test_bit m 8192 j \<Longrightarrow> test_bit m' 8192 j"
    and dirs: "\<And>d. d < 12 \<Longrightarrow> ino_direct m' 12288 d = ino_direct m 12288 d \<or>
       (unat (sb_data_region_start m) \<le> unat (ino_direct m' 12288 d) \<and>
        unat (ino_direct m' 12288 d) < unat (sb_data_region_start m) + unat (sb_data_region_blocks m) \<and>
        test_bit m' 8192 (unat (ino_direct m' 12288 d) - unat (sb_data_region_start m)))"
  shows "image_ok m'"
proof -
  note d = image_okD[OF ok]
  note s = same_outside_sb[OF so sb]
  note l = same_outside_length[OF so]
  have v: "validate m' = None" using s(13) d(1) by simp
  have r: "unat (sb_data_region_start m) \<le> unat (ino_direct m' 12288 d) \<and>
        unat (ino_direct m' 12288 d) < unat (sb_data_region_start m) + unat (sb_data_region_blocks m) \<and>
        test_bit m' 8192 (unat (ino_direct m' 12288 d) - unat (sb_data_region_start m))"
    if "d \<in> {0..<12}" "unat (ino_direct m' 12288 d) \<noteq> 0" for d
  proof -
    from that(1) have d12: "d < 12" by simp
    from dirs[OF d12] show ?thesis
    proof
      assume e: "ino_direct m' 12288 d = ino_direct m 12288 d"
      then have "ino_direct m 12288 d \<noteq> 0" using that(2) by (auto simp: unat_eq_0)
      note x = d(15)[OF d12 this]
      have "unat (ino_direct m 12288 d) - unat (sb_data_region_start m) < 32768"
        using x d(12) by linarith
      from bits[OF this] x show ?thesis unfolding e by simp
    qed simp
  qed
  have t0: "test_bit m' 8192 0" using bits[of 0] d(14) by simp
  have a: "sb_inode_bitmap_start m' = 1" "sb_data_bitmap_start m' = 2" "sb_inode_table_start m' = 3"
    using ok s(6,7,8) by (simp_all add: image_ok_def)
  show ?thesis
    unfolding image_ok_def Let_def s(5,9,10,11) l
    using v a d(6-12) b0 t0 r by blast
qed

lemma image_ok_preserved:
  assumes "image_ok m" "same_outside R m m'" "{0..<112} \<inter> R = {}" "{12288..<12416} \<inter> R = {}"
    "test_bit m' 4096 0"
    "\<And>j. j < 32768 \<Longrightarrow> test_bit m 8192 j \<Longrightarrow> test_bit m' 8192 j"
  shows "image_ok m'"
proof (rule image_ok_preserved'[OF assms(1,2,3,5,6)])
  fix d :: nat assume d: "d < 12"
  have "ino_direct m' 12288 d = ino_direct m 12288 d"
    unfolding ino_direct_def using d assms(4)
    by (intro same_outside_rd(3)[OF assms(2)]) (auto simp: disjoint_iff)
  then show "ino_direct m' 12288 d = ino_direct m 12288 d \<or>
       (unat (sb_data_region_start m) \<le> unat (ino_direct m' 12288 d) \<and>
        unat (ino_direct m' 12288 d) < unat (sb_data_region_start m) + unat (sb_data_region_blocks m) \<and>
        test_bit m' 8192 (unat (ino_direct m' 12288 d) - unat (sb_data_region_start m)))"
    by simp
qed (assumption)

lemma link_root_cases:
  assumes "link_root m 12288 8192 ino_no base now = Inr (out, ext)"
  obtains (slot) e where "find_slot m 12288 [0..<12] = Some e"
  | (ext) slot f where "find_slot m 12288 [0..<12] = None"
      "find (\<lambda>d. ino_direct m 12288 d = 0) [0..<12] = Some slot"
      "find (\<lambda>i. \<not> test_bit m 8192 i) [0..<unat (ucast (sb_data_region_blocks m) :: u32)] = Some f"
  using assms unfolding link_root_def Let_def
  by (auto split: option.splits)

lemma link_root_summary:
  fixes ino_no :: u32 and base :: string and now :: u64
  assumes ok: "image_ok m" and lr: "link_root m 12288 8192 ino_no base now = Inr (out, ext)"
  defines "drs \<equiv> unat (sb_data_region_start m)" and "drb \<equiv> unat (sb_data_region_blocks m)"
  shows "length out = length m"
    "\<exists>q d i. drs \<le> q \<and> q < drs + drb \<and> d < 12 \<and> i < 64 \<and>
       unat (ino_direct out 12288 d) = q \<and> unat (4096 * ino_direct out 12288 d) = 4096 * q \<and>
       (ext = None \<longrightarrow> ino_direct m 12288 d = ino_direct out 12288 d) \<and>
       (\<forall>f. ext = Some f \<longrightarrow> q = drs + f) \<and>
       same_outside ({8192..<12416} \<union> {4096 * q..<4096 * q + 4096}) m out \<and>
       de_inode_no out (4096 * q + i * 64) = ino_no \<and> de_type out (4096 * q + i * 64) = 1 \<and>
       de_name out (4096 * q + i * 64) = namebuf_of base"
    "ino_links out 12288 = ino_links m 12288 + 1"
    "ino_size_bytes out 12288 = ino_size_bytes m 12288 + 64"
    "\<And>j. j < 32768 \<Longrightarrow> test_bit out 8192 j \<longleftrightarrow> ext = Some j \<or> test_bit m 8192 j"
    "\<And>j. j < 32768 \<Longrightarrow> test_bit out 4096 j \<longleftrightarrow> test_bit m 4096 j"
    "\<And>f. ext = Some f \<Longrightarrow> f < drb \<and> \<not> test_bit m 8192 f \<and> (\<forall>j<f. test_bit m 8192 j)"
    "\<And>d. d < 12 \<Longrightarrow> ino_direct out 12288 d = ino_direct m 12288 d \<or>
       (ino_direct m 12288 d = 0 \<and> (\<exists>f. ext = Some f \<and> unat (ino_direct out 12288 d) = drs + f))"
    "\<And>e. find_slot m 12288 [0..<12] = Some e \<Longrightarrow> ext = None \<and>
       same_outside ({12288..<12416} \<union> {e..<e + 64}) m out \<and> de_inode_no out e = ino_no"
    "find_slot m 12288 [0..<12] = None \<Longrightarrow> \<exists>f. ext = Some f"
    "\<And>f. ext = Some f \<Longrightarrow> de_inode_no out (4096 * (drs + f)) = ino_no \<and>
       (\<forall>i. 1 \<le> i \<and> i < 64 \<longrightarrow> de_inode_no out (4096 * (drs + f) + i * 64) = 0) \<and>
       same_outside ({8192..<12416} \<union> {4096 * (drs + f)..<4096 * (drs + f) + 4096}) m out"
    "\<And>f. ext = Some f \<Longrightarrow> \<exists>d<12. ino_direct m 12288 d = 0 \<and>
       (\<forall>d'<d. ino_direct m 12288 d' \<noteq> 0) \<and>
       unat (ino_direct out 12288 d) = drs + f \<and>
       unat (4096 * ino_direct out 12288 d) = 4096 * (drs + f)"
proof -
  note g = image_ok_geom[OF ok, folded drs_def drb_def]
  show "\<exists>d<12. ino_direct m 12288 d = 0 \<and> (\<forall>d'<d. ino_direct m 12288 d' \<noteq> 0) \<and>
       unat (ino_direct out 12288 d) = drs + f \<and>
       unat (4096 * ino_direct out 12288 d) = 4096 * (drs + f)"
    if e: "ext = Some f" for f
    using lr
  proof (cases rule: link_root_cases)
    case (slot e')
    from link_root_slot(1)[OF ok slot, where ino_no = ino_no and base = base and now = now] lr e
    show ?thesis by simp
  next
    case (ext slot f')
    note s = link_root_ext(1)[OF ok ext, where ino_no = ino_no and base = base and now = now, folded drs_def]
    have oe: "out = update_root (store (memset0 (wr32 (set_bit_c m 8192 f') (12288 + 44 + 4 * slot)
      (ucast (sb_data_region_start m + of_nat f'))) (4096 * (drs + f')) 4096) (4096 * (drs + f'))
      (new_dirent ino_no (namebuf_of base) (namelen_of base))) 12288 now" "f' = f"
      using s lr e by simp_all
    note s' = link_root_ext(9,10)[OF ok ext, where ino_no = ino_no and base = base and now = now,
        folded drs_def, folded oe(1), unfolded oe(2)]
    note t = link_root_ext(4,5,19)[OF ok ext]
    show ?thesis using s' t by (intro exI[of _ slot]) simp
  qed
  show "de_inode_no out (4096 * (drs + f)) = ino_no \<and>
       (\<forall>i. 1 \<le> i \<and> i < 64 \<longrightarrow> de_inode_no out (4096 * (drs + f) + i * 64) = 0) \<and>
       same_outside ({8192..<12416} \<union> {4096 * (drs + f)..<4096 * (drs + f) + 4096}) m out"
    if e: "ext = Some f" for f
    using lr
  proof (cases rule: link_root_cases)
    case (slot e')
    from link_root_slot(1)[OF ok slot, where ino_no = ino_no and base = base and now = now] lr e
    show ?thesis by simp
  next
    case (ext slot f')
    note s = link_root_ext(1)[OF ok ext, where ino_no = ino_no and base = base and now = now, folded drs_def]
    have oe: "out = update_root (store (memset0 (wr32 (set_bit_c m 8192 f') (12288 + 44 + 4 * slot)
      (ucast (sb_data_region_start m + of_nat f'))) (4096 * (drs + f')) 4096) (4096 * (drs + f'))
      (new_dirent ino_no (namebuf_of base) (namelen_of base))) 12288 now" "f' = f"
      using s lr e by simp_all
    note s' = link_root_ext(3,12,18)[OF ok ext, where ino_no = ino_no and base = base and now = now,
        folded drs_def, folded oe(1), unfolded oe(2)]
    have f15: "f < 32768" using link_root_ext(6)[OF ok ext] g(4) oe(2) by (simp add: drb_def)
    have "same_outside ({8192..<12416} \<union> {4096 * (drs + f)..<4096 * (drs + f) + 4096}) m out"
      by (rule same_outside_mono[OF s'(1)]) (use f15 in auto)
    then show ?thesis using s'(2,3) by simp
  qed
  show "ext = None \<and> same_outside ({12288..<12416} \<union> {e..<e + 64}) m out \<and> de_inode_no out e = ino_no"
    if fs: "find_slot m 12288 [0..<12] = Some e" for e
  proof -
    note s = link_root_slot(1)[OF ok fs, where ino_no = ino_no and base = base and now = now]
    have oe: "out = update_root (store m e (new_dirent ino_no (namebuf_of base) (namelen_of base))) 12288 now"
      "ext = None"
      using s lr by simp_all
    note s' = link_root_slot(3,6)[OF ok fs, where ino_no = ino_no and base = base and now = now, folded oe(1)]
    show ?thesis using oe(2) s' by simp
  qed
  show "\<exists>f. ext = Some f" if fs: "find_slot m 12288 [0..<12] = None"
    using lr
  proof (cases rule: link_root_cases)
    case (slot e)
    then show ?thesis using fs by simp
  next
    case (ext slot f)
    from link_root_ext(1)[OF ok ext, where ino_no = ino_no and base = base and now = now] lr
    show ?thesis by simp
  qed
  let ?P1 = "length out = length m"
  let ?P2 = "\<exists>q d i. drs \<le> q \<and> q < drs + drb \<and> d < 12 \<and> i < 64 \<and>
       unat (ino_direct out 12288 d) = q \<and> unat (4096 * ino_direct out 12288 d) = 4096 * q \<and>
       (ext = None \<longrightarrow> ino_direct m 12288 d = ino_direct out 12288 d) \<and>
       (\<forall>f. ext = Some f \<longrightarrow> q = drs + f) \<and>
       same_outside ({8192..<12416} \<union> {4096 * q..<4096 * q + 4096}) m out \<and>
       de_inode_no out (4096 * q + i * 64) = ino_no \<and> de_type out (4096 * q + i * 64) = 1 \<and>
       de_name out (4096 * q + i * 64) = namebuf_of base"
  let ?P3 = "ino_links out 12288 = ino_links m 12288 + 1"
  let ?P4 = "ino_size_bytes out 12288 = ino_size_bytes m 12288 + 64"
  let ?P5 = "\<forall>j. j < 32768 \<longrightarrow> test_bit out 8192 j = (ext = Some j \<or> test_bit m 8192 j)"
  let ?P6 = "\<forall>j. j < 32768 \<longrightarrow> test_bit out 4096 j = test_bit m 4096 j"
  let ?P7 = "\<forall>f. ext = Some f \<longrightarrow> f < drb \<and> \<not> test_bit m 8192 f \<and> (\<forall>j<f. test_bit m 8192 j)"
  let ?P8 = "\<forall>d. d < 12 \<longrightarrow> ino_direct out 12288 d = ino_direct m 12288 d \<or>
       (ino_direct m 12288 d = 0 \<and> (\<exists>f. ext = Some f \<and> unat (ino_direct out 12288 d) = drs + f))"
  have all: "?P1 \<and> ?P2 \<and> ?P3 \<and> ?P4 \<and> ?P5 \<and> ?P6 \<and> ?P7 \<and> ?P8"
  using lr
  proof (cases rule: link_root_cases)
    case (slot e)
    note s = link_root_slot(1)[OF ok slot, where ino_no = ino_no and base = base and now = now]
    have oe: "out = update_root (store m e (new_dirent ino_no (namebuf_of base) (namelen_of base))) 12288 now"
      "ext = None"
      using s lr by simp_all
    note s' = link_root_slot(2,3)[OF ok slot, where ino_no = ino_no and base = base and now = now, folded oe(1)]
      link_root_slot(4,5)[OF ok slot]
      link_root_slot(6-11)[OF ok slot, where ino_no = ino_no and base = base and now = now, folded oe(1)]
    obtain d i where di: "d < 12" "i < 64" "ino_direct m 12288 d \<noteq> 0"
      "e = 4096 * unat (ino_direct m 12288 d) + i * 64"
      using s'(3) by blast
    note b = root_block_addr[OF ok di(1,3), folded drs_def drb_def]
    let ?q = "unat (ino_direct m 12288 d)"
    have sub: "{12288..<12416} \<union> {e..<e + 64} \<subseteq> {8192..<12416} \<union> {4096 * ?q..<4096 * ?q + 4096}"
      using di(2,4) by auto
    have so: "same_outside ({8192..<12416} \<union> {4096 * ?q..<4096 * ?q + 4096}) m out"
      by (rule same_outside_mono[OF s'(2) sub])
    have so2: "same_outside ({12288..<12416} \<union> {4096 * ?q..<4096 * ?q + 4096}) m out"
      by (rule same_outside_mono[OF s'(2)]) (use di(2,4) in auto)
    have lo: "16384 \<le> 4096 * ?q" using g(1) b(2) by simp
    have bits: "test_bit out bm j = test_bit m bm j" if "bm + j div 8 < 12288" for bm j
      using that lo by (intro same_outside_test_bit[OF so2]) auto
    have dd: "ino_direct out 12288 d = ino_direct m 12288 d" by (rule s'(10)[OF di(1)])
    have 1: ?P1 by (rule s'(1))
    have 2: ?P2
      apply (rule exI[of _ ?q], rule exI[of _ d], rule exI[of _ i])
      using b di(1,2) s'(5-7)[unfolded di(4)] so oe(2) by (simp add: dd)
    have 3: ?P3 by (rule s'(8))
    have 4: ?P4 by (rule s'(9))
    have 5: ?P5 using bits[of 8192] oe(2) by simp
    have 6: ?P6 using bits[of 4096] by simp
    have 7: ?P7 using oe(2) by simp
    have 8: ?P8 using s'(10) by simp
    show ?thesis using 1 2 3 4 5 6 7 8 by (intro conjI)
  next
    case (ext slot f)
    note s = link_root_ext(1)[OF ok ext, where ino_no = ino_no and base = base and now = now, folded drs_def]
    have oe: "out = update_root (store (memset0 (wr32 (set_bit_c m 8192 f) (12288 + 44 + 4 * slot)
      (ucast (sb_data_region_start m + of_nat f))) (4096 * (drs + f)) 4096) (4096 * (drs + f))
      (new_dirent ino_no (namebuf_of base) (namelen_of base))) 12288 now" "ext = Some f"
      using s lr by simp_all
    note s' = link_root_ext(2,3)[OF ok ext, where ino_no = ino_no and base = base and now = now, folded drs_def, folded oe(1)]
      link_root_ext(4-8)[OF ok ext]
      link_root_ext(9-17)[OF ok ext, where ino_no = ino_no and base = base and now = now, folded drs_def, folded oe(1)]
    have f: "f < drb" using s'(5) by (simp add: drb_def)
    have f15: "f < 32768" using f g(4) by simp
    let ?q = "drs + f"
    have so: "same_outside ({8192..<12416} \<union> {4096 * ?q..<4096 * ?q + 4096}) m out"
      by (rule same_outside_mono[OF s'(2)]) (use f15 in auto)
    have lo: "16384 \<le> 4096 * ?q" using g(1) by simp
    have bi: "test_bit out 4096 j = test_bit m 4096 j" if "j < 32768" for j
      using that lo by (intro same_outside_test_bit[OF s'(2)]) auto
    have 1: ?P1 by (rule s'(1))
    have 2: ?P2
      apply (rule exI[of _ ?q], rule exI[of _ slot], rule exI[of _ 0])
      using f s'(3,8,9,11-13) so oe(2) by simp
    have 3: ?P3 by (rule s'(14))
    have 4: ?P4 by (rule s'(15))
    have 5: ?P5 using s'(16) oe(2) by auto
    have 6: ?P6 using bi by simp
    have 7: ?P7 using s'(6,7) f oe(2) by simp
    have 8: ?P8
    proof (intro allI impI)
      fix d :: nat assume d: "d < 12"
      show "ino_direct out 12288 d = ino_direct m 12288 d \<or>
       (ino_direct m 12288 d = 0 \<and> (\<exists>f. ext = Some f \<and> unat (ino_direct out 12288 d) = drs + f))"
        using s'(10)[OF d] s'(4,8) oe(2) by (cases "d = slot") simp_all
    qed
    show ?thesis using 1 2 3 4 5 6 7 8 by (intro conjI)
  qed
  show ?P1 by (rule all[THEN conjunct1])
  show ?P2 by (rule all[THEN conjunct2, THEN conjunct1])
  show ?P3 by (rule all[THEN conjunct2, THEN conjunct2, THEN conjunct1])
  show ?P4 by (rule all[THEN conjunct2, THEN conjunct2, THEN conjunct2, THEN conjunct1])
  show "\<And>j. j < 32768 \<Longrightarrow> test_bit out 8192 j \<longleftrightarrow> ext = Some j \<or> test_bit m 8192 j"
    using all[THEN conjunct2, THEN conjunct2, THEN conjunct2, THEN conjunct2, THEN conjunct1] by simp
  show "\<And>j. j < 32768 \<Longrightarrow> test_bit out 4096 j \<longleftrightarrow> test_bit m 4096 j"
    using all[THEN conjunct2, THEN conjunct2, THEN conjunct2, THEN conjunct2, THEN conjunct2, THEN conjunct1] by simp
  show "\<And>f. ext = Some f \<Longrightarrow> f < drb \<and> \<not> test_bit m 8192 f \<and> (\<forall>j<f. test_bit m 8192 j)"
    using all[THEN conjunct2, THEN conjunct2, THEN conjunct2, THEN conjunct2, THEN conjunct2, THEN conjunct2, THEN conjunct1]
    by simp
  show "\<And>d. d < 12 \<Longrightarrow> ino_direct out 12288 d = ino_direct m 12288 d \<or>
       (ino_direct m 12288 d = 0 \<and> (\<exists>f. ext = Some f \<and> unat (ino_direct out 12288 d) = drs + f))"
    using all[THEN conjunct2, THEN conjunct2, THEN conjunct2, THEN conjunct2, THEN conjunct2, THEN conjunct2, THEN conjunct2]
    by simp
qed

subsection \<open>A successful run, phase by phase\<close>

lemma alloc_phase:
  assumes ok: "image_ok img"
    and fi: "find_free_inode img 4096 = Some idx"
    and db: "dbs = find_free_blocks img 8192 need"
  defines "m1 \<equiv> foldl (\<lambda>m i. set_bit_c m 8192 (dbs ! i)) (set_bit_c img 4096 idx) [0..<length dbs]"
  shows "1 \<le> idx" "idx < unat (sb_inode_count img)" "\<not> test_bit img 4096 idx"
    "\<And>j. j < idx \<Longrightarrow> test_bit img 4096 j"
    "\<And>x. x \<in> set dbs \<Longrightarrow> x < unat (sb_data_region_blocks img) \<and> \<not> test_bit img 8192 x"
    "length m1 = length img" "same_outside {4096..<12288} img m1"
    "\<And>j. j < 32768 \<Longrightarrow> test_bit m1 4096 j \<longleftrightarrow> j = idx \<or> test_bit img 4096 j"
    "\<And>j. j < 32768 \<Longrightarrow> test_bit m1 8192 j \<longleftrightarrow> j \<in> set dbs \<or> test_bit img 8192 j"
    "image_ok m1"
proof -
  note d = image_okD[OF ok]
  note g = image_ok_geom[OF ok]
  note lim = image_ok_limits[OF ok]
  have i: "idx < unat (sb_inode_count img)" "\<not> test_bit img 4096 idx" "\<And>j. j < idx \<Longrightarrow> test_bit img 4096 j"
    using fi by (simp_all add: find_free_inode_def find_upt_Some lim)
  show "idx < unat (sb_inode_count img)" "\<not> test_bit img 4096 idx" "\<And>j. j < idx \<Longrightarrow> test_bit img 4096 j"
    by (rule i)+
  show i1: "1 \<le> idx" using i(2) d(13) by (cases "idx = 0") simp_all
  show x: "\<And>x. x \<in> set dbs \<Longrightarrow> x < unat (sb_data_region_blocks img) \<and> \<not> test_bit img 8192 x"
    using find_free_blocks_props(4)[of _ img 8192 need] by (simp add: db lim)
  have i15: "idx < 32768" using i(1) d(11) by simp
  have x15: "\<forall>j \<in> set dbs. j < 32768" using x d(12) by fastforce
  define m0 where "m0 = set_bit_c img 4096 idx"
  have m1: "m1 = foldl (\<lambda>m j. set_bit_c m 8192 j) m0 dbs"
    unfolding m1_def m0_def by (rule foldl_nth_upt)
  show l: "length m1 = length img" by (simp add: m1 m0_def)
  have s0: "same_outside {4096 + idx div 8} img m0" unfolding m0_def by (rule same_outside_set_bit_c)
  have s1: "same_outside {8192..<8192 + 4096} m0 m1" unfolding m1 by (rule same_outside_set_bits[OF x15])
  show so: "same_outside {4096..<12288} img m1"
    using i15 by (intro same_outside_trans[OF s0 s1]) auto
  have len: "12288 \<le> length img" by (rule g(5))
  show bi: "test_bit m1 4096 j \<longleftrightarrow> j = idx \<or> test_bit img 4096 j" if "j < 32768" for j
  proof -
    have "test_bit m1 4096 j = test_bit m0 4096 j"
      using that by (intro same_outside_test_bit[OF s1]) simp
    moreover have "4096 + idx div 8 < length img" using i15 len by simp
    ultimately show ?thesis unfolding m0_def by (simp add: test_bit_set_bit_c)
  qed
  show bd: "test_bit m1 8192 j \<longleftrightarrow> j \<in> set dbs \<or> test_bit img 8192 j" if "j < 32768" for j
  proof -
    have "\<forall>j \<in> set dbs. 8192 + j div 8 < length m0"
      using x15 len by (fastforce simp: m0_def)
    then have "test_bit m1 8192 j \<longleftrightarrow> j \<in> set dbs \<or> test_bit m0 8192 j"
      unfolding m1 by (rule test_bit_set_bits)
    moreover have "test_bit m0 8192 j = test_bit img 8192 j"
      using i15 by (intro same_outside_test_bit[OF s0]) simp
    ultimately show ?thesis by simp
  qed
  show "image_ok m1"
  proof (rule image_ok_preserved[OF ok so])
    show "test_bit m1 4096 0" using bi[of 0] d(13) by simp
    show "\<And>j. j < 32768 \<Longrightarrow> test_bit img 8192 j \<Longrightarrow> test_bit m1 8192 j" using bd by simp
  qed auto
qed

lemma inode_phase:
  fixes dbs :: "nat list" and fsize t :: u64
  assumes ok: "image_ok m1" and i1: "1 \<le> idx" and i2: "idx < unat (sb_inode_count m1)"
    and n12: "length dbs \<le> 12"
    and xs: "\<And>x. x \<in> set dbs \<Longrightarrow> x < unat (sb_data_region_blocks m1)"
  defines "ino \<equiv> 12288 + 128 * idx"
  defines "m2 \<equiv> build_inode m1 ino fsize t (length dbs) dbs"
  defines "drs \<equiv> unat (sb_data_region_start m1)"
  shows "length m2 = length m1" "same_outside {ino..<ino + 128} m1 m2"
    "12416 \<le> ino" "ino + 128 \<le> 4096 * drs"
    "ino_mode m2 ino = 0x8000" "ino_links m2 ino = 1" "ino_size_bytes m2 ino = fsize"
    "\<And>i. i < length dbs \<Longrightarrow> unat (ino_direct m2 ino i) = drs + dbs ! i \<and>
        unat (4096 * ino_direct m2 ino i) = 4096 * (drs + dbs ! i)"
    "\<And>i. length dbs \<le> i \<Longrightarrow> i < 12 \<Longrightarrow> ino_direct m2 ino i = 0"
    "image_ok m2"
proof -
  note d = image_okD[OF ok]
  note g = image_ok_geom[OF ok, folded drs_def]
  show lo: "12416 \<le> ino" using i1 by (simp add: ino_def)
  show hi: "ino + 128 \<le> 4096 * drs" using i2 d(6,10) by (simp add: ino_def drs_def)
  have a: "ino + 128 \<le> length m1" using hi g(2) by simp
  have b: "116 \<le> ino" using lo by simp
  note p = build_inode_props[OF a b n12, where fsize = fsize and t = t and dbs = dbs, folded m2_def]
  show "length m2 = length m1" "same_outside {ino..<ino + 128} m1 m2"
    "ino_mode m2 ino = 0x8000" "ino_links m2 ino = 1" "ino_size_bytes m2 ino = fsize"
    by (rule p)+
  show "\<And>i. length dbs \<le> i \<Longrightarrow> i < 12 \<Longrightarrow> ino_direct m2 ino i = 0" by (rule p(7))
  show "unat (ino_direct m2 ino i) = drs + dbs ! i \<and>
        unat (4096 * ino_direct m2 ino i) = 4096 * (drs + dbs ! i)" if "i < length dbs" for i
  proof -
    have x: "dbs ! i < unat (sb_data_region_blocks m1)" using xs that by simp
    have "unat (sb_data_region_start m1 + of_nat (dbs ! i)) = drs + dbs ! i"
      using g(3) x by (simp add: unat_word_ariths unat_of_nat take_bit_nat_eq_self drs_def)
    then have u: "unat (ino_direct m2 ino i) = drs + dbs ! i"
      using g(3) x by (simp add: p(6)[OF that] unsigned_ucast_eq take_bit_nat_eq_self)
    moreover have "unat (ino_direct m2 ino i) < 2 ^ 20" using u g(3) x by simp
    ultimately show ?thesis by (simp add: unat_blk)
  qed
  show "image_ok m2"
  proof (rule image_ok_preserved[OF ok p(2)])
    show "{0..<112} \<inter> {ino..<ino + 128} = {}" using lo by auto
    show "{12288..<12416} \<inter> {ino..<ino + 128} = {}" using lo by auto
    show "test_bit m2 4096 0"
      using same_outside_test_bit[OF p(2), of 4096 0] lo d(13) by simp
    show "test_bit m2 8192 j" if "j < 32768" "test_bit m1 8192 j" for j
      using same_outside_test_bit[OF p(2), of 8192 j] that lo by simp
  qed
qed

lemma data_phase:
  fixes dbs :: "nat list"
  assumes ok: "image_ok m2" and lo: "12416 \<le> ino" and hi: "ino + 128 \<le> 4096 * unat (sb_data_region_start m2)"
    and dirs: "\<And>i. i < length dbs \<Longrightarrow>
        unat (4096 * ino_direct m2 ino i) = 4096 * (unat (sb_data_region_start m2) + dbs ! i)"
    and dist: "distinct dbs"
    and xs: "\<And>x. x \<in> set dbs \<Longrightarrow> x < unat (sb_data_region_blocks m2)"
    and n12: "length dbs \<le> 12"
    and len: "length bytes + 4095 < 2 ^ 44"
    and need: "length dbs = (length bytes + 4095) div 4096"
  defines "drs \<equiv> unat (sb_data_region_start m2)"
  shows "\<exists>m3. write_file_data m2 ino (length dbs) (of_nat (length bytes)) bytes [0..<length dbs] = Some m3 \<and>
     length m3 = length m2 \<and>
     same_outside (\<Union>i\<in>{..<length dbs}. {4096 * (drs + dbs ! i)..<4096 * (drs + dbs ! i) + 4096}) m2 m3 \<and>
     (\<forall>i<length dbs. load m3 (4096 * (drs + dbs ! i)) 4096 = chunk bytes i)"
proof -
  note g = image_ok_geom[OF ok, folded drs_def]
  let ?P = "\<lambda>i. drs + dbs ! i"
  have blocks: "unat (4096 * ino_direct m2 ino i) = 4096 * ?P i \<and>
                   ino + 128 \<le> 4096 * ?P i \<and> 4096 * ?P i + 4096 \<le> length m2" if "i < length dbs" for i
  proof -
    have "dbs ! i < unat (sb_data_region_blocks m2)" using xs that by simp
    then have "4096 * ?P i + 4096 \<le> length m2" using g(2) by simp
    then show ?thesis using dirs[OF that] hi by (simp add: drs_def)
  qed
  have inj: "inj_on ?P {..<length dbs}"
    using dist by (auto simp: inj_on_def nth_eq_iff_index_eq)
  have "\<exists>m'. write_file_data m2 ino (length dbs) (of_nat (length bytes)) (drop (4096 * 0) bytes) [0..<length dbs] = Some m' \<and>
          length m' = length m2 \<and>
          same_outside (\<Union>i\<in>{..<length dbs}. {4096 * ?P i..<4096 * ?P i + 4096}) m2 m' \<and>
          (\<forall>i<length dbs. load m' (4096 * ?P i) 4096 = chunk bytes i)"
    by (rule write_file_data_step[OF len need n12 blocks inj]) simp_all
  then show ?thesis by simp
qed

lemma find_slot_cong:
  assumes "\<And>d. d \<in> set ds \<Longrightarrow> ino_direct m' root d = ino_direct m root d"
    and "\<And>d i. d \<in> set ds \<Longrightarrow> ino_direct m root d \<noteq> 0 \<Longrightarrow> i < 64 \<Longrightarrow>
          de_inode_no m' (unat (4096 * ino_direct m root d) + i * 64)
        = de_inode_no m (unat (4096 * ino_direct m root d) + i * 64)"
  shows "find_slot m' root ds = find_slot m root ds"
  using assms
proof (induction ds)
  case Nil
  then show ?case by simp
next
  case (Cons d ds)
  have d: "ino_direct m' root d = ino_direct m root d" using Cons.prems(1) by simp
  have ih: "find_slot m' root ds = find_slot m root ds"
    using Cons.prems by (intro Cons.IH) simp_all
  show ?case
  proof (cases "ino_direct m root d = 0")
    case True
    then show ?thesis using d by simp
  next
    case False
    have "find (\<lambda>i. de_inode_no m' (unat (4096 * ino_direct m root d) + i * 64) = 0) [0..<64]
        = find (\<lambda>i. de_inode_no m (unat (4096 * ino_direct m root d) + i * 64) = 0) [0..<64]"
      using Cons.prems(2)[of d] False by (intro find_cong) simp_all
    then show ?thesis using d ih False by (simp add: Let_def split: option.splits)
  qed
qed

lemma block_of_addr: "4096 * b \<le> x \<Longrightarrow> x < 4096 * b + 4096 \<Longrightarrow> x div 4096 = (b::nat)"
  by (simp add: div_nat_eqI)

lemma entry_outside:
  assumes ok: "image_ok img" and d: "d < 12" "ino_direct img 12288 d \<noteq> 0" and i: "i < 64"
    and idx: "idx < unat (sb_inode_count img)"
    and dbs: "\<forall>x \<in> set dbs. \<not> test_bit img 8192 x"
  defines "drs \<equiv> unat (sb_data_region_start img)"
  defines "a \<equiv> root_entry img d i"
  shows "{a..<a + 4} \<inter> ({4096..<12416} \<union> {12288 + 128 * idx..<12288 + 128 * idx + 128} \<union>
            (\<Union>k\<in>{..<length dbs}. {4096 * (drs + dbs ! k)..<4096 * (drs + dbs ! k) + 4096})) = {}"
    "\<And>f. \<not> test_bit img 8192 f \<Longrightarrow> {a..<a + 4} \<inter> {4096 * (drs + f)..<4096 * (drs + f) + 4096} = {}"
    "a mod 64 = 0"
proof -
  note g = image_ok_geom[OF ok, folded drs_def]
  note dd = image_okD[OF ok]
  note rb = root_block_addr[OF ok d, folded drs_def]
  define p where "p = unat (ino_direct img 12288 d)"
  have a: "a = 4096 * p + i * 64" by (simp add: a_def root_entry_def rb(1) p_def)
  have lo: "4096 * p \<le> a" "a + 4 \<le> 4096 * p + 4096" using i by (simp_all add: a)
  have p: "drs \<le> p" "test_bit img 8192 (p - drs)" using rb(2,4) by (simp_all add: p_def)
  have p4: "4096 * drs \<le> 4096 * p" using p(1) by simp
  have ino: "12288 + 128 * idx + 128 \<le> 4096 * drs" using idx dd(10) dd(6) by (simp add: drs_def)
  have blk: "x \<notin> {4096 * (drs + b)..<4096 * (drs + b) + 4096}"
    if "x \<in> {a..<a + 4}" "\<not> test_bit img 8192 b" for x b
  proof
    assume "x \<in> {4096 * (drs + b)..<4096 * (drs + b) + 4096}"
    then have "x div 4096 = drs + b" by (intro block_of_addr) simp_all
    moreover have "x div 4096 = p" using that(1) lo by (intro block_of_addr) simp_all
    ultimately have "b = p - drs" using p(1) by simp
    then show False using that(2) p(2) by simp
  qed
  have "x \<notin> {4096..<12416} \<union> {12288 + 128 * idx..<12288 + 128 * idx + 128} \<union>
            (\<Union>k\<in>{..<length dbs}. {4096 * (drs + dbs ! k)..<4096 * (drs + dbs ! k) + 4096})"
    if x: "x \<in> {a..<a + 4}" for x
  proof -
    have "4096 * drs \<le> x" using x lo(1) p4 by simp
    then have 1: "x \<notin> {4096..<12416}" "x \<notin> {12288 + 128 * idx..<12288 + 128 * idx + 128}"
      using g(1) ino by simp_all
    have 2: "x \<notin> {4096 * (drs + dbs ! k)..<4096 * (drs + dbs ! k) + 4096}" if "k < length dbs" for k
      using blk[OF x, of "dbs ! k"] dbs that by simp
    show ?thesis using 1 2 by blast
  qed
  then show "{a..<a + 4} \<inter> ({4096..<12416} \<union> {12288 + 128 * idx..<12288 + 128 * idx + 128} \<union>
            (\<Union>k\<in>{..<length dbs}. {4096 * (drs + dbs ! k)..<4096 * (drs + dbs ! k) + 4096})) = {}"
    unfolding disjoint_iff by blast
  show "{a..<a + 4} \<inter> {4096 * (drs + f)..<4096 * (drs + f) + 4096} = {}"
    if "\<not> test_bit img 8192 f" for f
    unfolding disjoint_iff using blk that by blast
  show "a mod 64 = 0" by (simp add: a)
qed

lemma find_slot_frame:
  assumes ok: "image_ok img" and i1: "1 \<le> idx" and idx: "idx < unat (sb_inode_count img)"
    and dbs: "\<forall>x \<in> set dbs. \<not> test_bit img 8192 x"
    and so: "same_outside ({4096..<12288} \<union> {12288 + 128 * idx..<12288 + 128 * idx + 128} \<union>
        (\<Union>k\<in>{..<length dbs}. {4096 * (unat (sb_data_region_start img) + dbs ! k)..<
            4096 * (unat (sb_data_region_start img) + dbs ! k) + 4096})) img m3"
  shows "find_slot m3 12288 [0..<12] = find_slot img 12288 [0..<12]"
    "\<And>d. d < 12 \<Longrightarrow> ino_direct m3 12288 d = ino_direct img 12288 d"
proof -
  note g = image_ok_geom[OF ok]
  let ?R = "{4096..<12416} \<union> {12288 + 128 * idx..<12288 + 128 * idx + 128} \<union>
        (\<Union>k\<in>{..<length dbs}. {4096 * (unat (sb_data_region_start img) + dbs ! k)..<
            4096 * (unat (sb_data_region_start img) + dbs ! k) + 4096})"
  have so': "same_outside ?R img m3" by (rule same_outside_mono[OF so]) auto
  show dir: "ino_direct m3 12288 d = ino_direct img 12288 d" if "d < 12" for d
  proof -
    have "x \<notin> {4096..<12288} \<union> {12288 + 128 * idx..<12288 + 128 * idx + 128} \<union>
        (\<Union>k\<in>{..<length dbs}. {4096 * (unat (sb_data_region_start img) + dbs ! k)..<
            4096 * (unat (sb_data_region_start img) + dbs ! k) + 4096})"
      if x: "x \<in> {12288 + 44 + 4 * d..<12288 + 44 + 4 * d + 4}" for x
    proof -
      have a: "12288 \<le> x" "x < 12416" using x \<open>d < 12\<close> by simp_all
      have "x \<notin> {4096 * (unat (sb_data_region_start img) + dbs ! k)..<
            4096 * (unat (sb_data_region_start img) + dbs ! k) + 4096}" for k
        using a(2) g(1) by simp
      then show ?thesis using a i1 by simp
    qed
    then have "{12288 + 44 + 4 * d..<12288 + 44 + 4 * d + 4} \<inter>
       ({4096..<12288} \<union> {12288 + 128 * idx..<12288 + 128 * idx + 128} \<union>
        (\<Union>k\<in>{..<length dbs}. {4096 * (unat (sb_data_region_start img) + dbs ! k)..<
            4096 * (unat (sb_data_region_start img) + dbs ! k) + 4096})) = {}"
      unfolding disjoint_iff by blast
    from same_outside_rd(3)[OF so this] show ?thesis by (simp add: ino_direct_def)
  qed
  show "find_slot m3 12288 [0..<12] = find_slot img 12288 [0..<12]"
  proof (rule find_slot_cong)
    show "\<And>d. d \<in> set [0..<12] \<Longrightarrow> ino_direct m3 12288 d = ino_direct img 12288 d"
      using dir by simp
    fix d i assume a: "d \<in> set [0..<12]" "ino_direct img 12288 d \<noteq> 0" "i < (64::nat)"
    then have d12: "d < 12" by simp
    from same_outside_rd(3)[OF so' entry_outside(1)[OF ok d12 a(2,3) idx dbs]]
    show "de_inode_no m3 (unat (4096 * ino_direct img 12288 d) + i * 64)
        = de_inode_no img (unat (4096 * ino_direct img 12288 d) + i * 64)"
      by (simp add: de_inode_no_def root_entry_def)
  qed
qed

lemma adder_effects:
  assumes ok: "image_ok img" and run: "mkfs_adder_main img fp src t1 t2 = Inr r"
    and H: "db_idxs r = [] \<or> length (src_bytes src) + 4095 < 2 ^ 44"
  defines "idx \<equiv> new_ino_idx r" and "dbs \<equiv> db_idxs r" and "out \<equiv> out_img r"
    and "drs \<equiv> unat (sb_data_region_start img)" and "drb \<equiv> unat (sb_data_region_blocks img)"
    and "bytes \<equiv> src_bytes src"
  defines "ino \<equiv> 12288 + 128 * idx"
  shows "length out = length img"
    and "image_ok out"
    and "same_outside {4096..<length img} img out"
    and "1 \<le> idx" "idx < unat (sb_inode_count img)" "\<not> test_bit img 4096 idx"
      "\<And>j. j < idx \<Longrightarrow> test_bit img 4096 j"
    and "\<And>j. j < 32768 \<Longrightarrow> test_bit out 4096 j \<longleftrightarrow> j = idx \<or> test_bit img 4096 j"
    and "dbs = find_free_blocks img 8192 (length dbs)" "length dbs \<le> 12"
      "length dbs = unat (need_blocks_of (of_nat (length bytes)))"
    and "\<And>f. free_idx r = Some f \<Longrightarrow> f < drb \<and> f \<notin> set dbs \<and> \<not> test_bit img 8192 f \<and>
            (\<forall>j<f. j \<in> set dbs \<or> test_bit img 8192 j)"
    and "\<And>j. j < 32768 \<Longrightarrow> test_bit out 8192 j \<longleftrightarrow> j \<in> set (allocated_blocks r) \<or> test_bit img 8192 j"
    and "ino_links out 12288 = ino_links img 12288 + 1"
      "ino_size_bytes out 12288 = ino_size_bytes img 12288 + 64"
    and "ino_mode out ino = 0x8000" "ino_links out ino = 1"
      "ino_size_bytes out ino = of_nat (length bytes)"
    and "\<And>i. i < length dbs \<Longrightarrow> unat (ino_direct out ino i) = drs + dbs ! i \<and>
            unat (4096 * ino_direct out ino i) = 4096 * (drs + dbs ! i)"
    and "\<And>i. length dbs \<le> i \<Longrightarrow> i < 12 \<Longrightarrow> ino_direct out ino i = 0"
    and "length bytes + 4095 < 2 ^ 44 \<Longrightarrow>
          (\<forall>i<length dbs. load out (4096 * (drs + dbs ! i)) 4096 = chunk bytes i)"
    and "\<exists>e d i. d < 12 \<and> i < 64 \<and> ino_direct out 12288 d \<noteq> 0 \<and>
          e = unat (4096 * ino_direct out 12288 d) + i * 64 \<and>
          de_inode_no out e = of_nat idx + 1 \<and> de_type out e = 1 \<and>
          de_name out e = namebuf_of (base_name fp)"
    and "\<And>d. d < 12 \<Longrightarrow> ino_direct out 12288 d = ino_direct img 12288 d \<or>
          (ino_direct img 12288 d = 0 \<and> (\<exists>f. free_idx r = Some f \<and> unat (ino_direct out 12288 d) = drs + f))"
    and "\<And>e. find_slot img 12288 [0..<12] = Some e \<Longrightarrow> free_idx r = None \<and>
          de_inode_no out e = of_nat idx + 1 \<and>
          same_outside ({4096..<12416} \<union> {ino..<ino + 128} \<union>
            (\<Union>i\<in>{..<length dbs}. {4096 * (drs + dbs ! i)..<4096 * (drs + dbs ! i) + 4096}) \<union>
            {e..<e + 64}) img out"
    and "find_slot img 12288 [0..<12] = None \<Longrightarrow> \<exists>f. free_idx r = Some f"
    and "\<And>f. free_idx r = Some f \<Longrightarrow> de_inode_no out (4096 * (drs + f)) = of_nat idx + 1 \<and>
          (\<forall>i. 1 \<le> i \<and> i < 64 \<longrightarrow> de_inode_no out (4096 * (drs + f) + i * 64) = 0) \<and>
          same_outside ({4096..<12416} \<union> {ino..<ino + 128} \<union>
            (\<Union>i\<in>{..<length dbs}. {4096 * (drs + dbs ! i)..<4096 * (drs + dbs ! i) + 4096}) \<union>
            {4096 * (drs + f)..<4096 * (drs + f) + 4096}) img out"
    and "\<And>f. free_idx r = Some f \<Longrightarrow> \<exists>d<12. ino_direct img 12288 d = 0 \<and>
          (\<forall>d'<d. ino_direct img 12288 d' \<noteq> 0) \<and>
          unat (ino_direct out 12288 d) = drs + f \<and>
          unat (4096 * ino_direct out 12288 d) = 4096 * (drs + f)"
proof -
  note d = image_okD[OF ok]
  note g = image_ok_geom[OF ok, folded drs_def drb_def]
  note R = adder_InrD[OF run, unfolded d(3,4,5), folded idx_def dbs_def out_def bytes_def]
  let ?need = "unat (need_blocks_of (of_nat (length bytes)))"
  have ld: "length dbs = ?need" by (rule R(7))
  show "length dbs = unat (need_blocks_of (of_nat (length bytes)))" by (rule ld)
  show n12: "length dbs \<le> 12" using R(4) ld by simp
  show db: "dbs = find_free_blocks img 8192 (length dbs)" using R(6) ld by simp
  note A = alloc_phase[OF ok R(5) db]
  show "1 \<le> idx" "idx < unat (sb_inode_count img)" "\<not> test_bit img 4096 idx"
      "\<And>j. j < idx \<Longrightarrow> test_bit img 4096 j"
    by (rule A(1-4))+
  define m1 where "m1 = foldl (\<lambda>m i. set_bit_c m 8192 (dbs ! i)) (set_bit_c img 4096 idx) [0..<length dbs]"
  note A' = A(5-)[folded m1_def]
  have sb1: "sb_inode_count m1 = sb_inode_count img" "sb_data_region_start m1 = sb_data_region_start img"
    "sb_data_region_blocks m1 = sb_data_region_blocks img"
    using same_outside_sb(5,10,11)[OF A'(3)] by simp_all
  have xs: "\<And>x. x \<in> set dbs \<Longrightarrow> x < drb" using A'(1) by (simp add: drb_def)
  have dist: "distinct dbs" using find_free_blocks_props(2)[of img 8192 "length dbs"] db by simp
  define m2 where "m2 = build_inode m1 ino (of_nat (length bytes)) t1 (length dbs) dbs"
  have i2: "idx < unat (sb_inode_count m1)" using A(2) sb1 by simp
  have xs1: "\<And>x. x \<in> set dbs \<Longrightarrow> x < unat (sb_data_region_blocks m1)" using xs sb1 by (simp add: drb_def)
  note I = inode_phase(1,2)[OF A'(6) A(1) i2 n12 xs1, where fsize = "of_nat (length bytes)" and t = t1,
      folded ino_def, folded m2_def, unfolded sb1, folded drs_def]
    inode_phase(3,4)[OF A'(6) A(1) i2 n12 xs1, folded ino_def, unfolded sb1, folded drs_def]
    inode_phase(5-10)[OF A'(6) A(1) i2 n12 xs1, where fsize = "of_nat (length bytes)" and t = t1,
      folded ino_def, folded m2_def, unfolded sb1, folded drs_def]
  have s12: "same_outside {ino..<ino + 128} m1 m2" by (rule I(2))
  have sb2: "sb_data_region_start m2 = sb_data_region_start img"
    "sb_data_region_blocks m2 = sb_data_region_blocks img"
    using same_outside_sb(10,11)[OF s12] I(3) sb1 by simp_all
  let ?B = "\<Union>i\<in>{..<length dbs}. {4096 * (drs + dbs ! i)..<4096 * (drs + dbs ! i) + 4096}"
  have Blo: "\<And>a. a \<in> ?B \<Longrightarrow> 4096 * drs \<le> a" by auto
  have Bhi: "\<And>a. a \<in> ?B \<Longrightarrow> a < length img"
  proof -
    fix a assume "a \<in> ?B"
    then obtain i where i: "i < length dbs" "a < 4096 * (drs + dbs ! i) + 4096" by auto
    then have "dbs ! i < drb" using xs by simp
    then show "a < length img" using i(2) g(2) by simp
  qed
  have R8: "\<exists>m3. (if length dbs \<noteq> 0
            then write_file_data m2 ino (length dbs) (of_nat (length bytes)) bytes [0..<length dbs] = Some m3
            else m3 = m2) \<and>
          link_root m3 12288 8192 (of_nat idx + 1) (base_name fp) t2 = Inr (out, free_idx r)"
    using R(8) unfolding ld[symmetric] m1_def[symmetric] ino_def[symmetric] m2_def[symmetric] .
  obtain m3 where lr: "link_root m3 12288 8192 (of_nat idx + 1) (base_name fp) t2 = Inr (out, free_idx r)"
    and l3: "length m3 = length m2" and s23: "same_outside ?B m2 m3"
    and ch: "length bytes + 4095 < 2 ^ 44 \<Longrightarrow> (\<forall>i<length dbs. load m3 (4096 * (drs + dbs ! i)) 4096 = chunk bytes i)"
  proof (cases "dbs = []")
    case True
    then obtain m3 where "m3 = m2" "link_root m3 12288 8192 (of_nat idx + 1) (base_name fp) t2 = Inr (out, free_idx r)"
      using R8 by auto
    then show thesis using that[of m3] True by simp
  next
    case False
    then have len: "length bytes + 4095 < 2 ^ 44" using H by (simp add: dbs_def bytes_def)
    have need: "length dbs = (length bytes + 4095) div 4096"
      using ld unat_need_blocks_of[OF len] by simp
    have hi2: "ino + 128 \<le> 4096 * unat (sb_data_region_start m2)" using I(4) sb2 by (simp add: drs_def)
    have dirs: "\<And>i. i < length dbs \<Longrightarrow>
        unat (4096 * ino_direct m2 ino i) = 4096 * (unat (sb_data_region_start m2) + dbs ! i)"
      using I(8) sb2 by (simp add: drs_def)
    have xs2: "\<And>x. x \<in> set dbs \<Longrightarrow> x < unat (sb_data_region_blocks m2)"
      using xs sb2 by (simp add: drb_def)
    from data_phase[OF I(10) I(3) hi2 dirs dist xs2 n12 len need, unfolded sb2, folded drs_def]
    obtain m3' where w: "write_file_data m2 ino (length dbs) (of_nat (length bytes)) bytes [0..<length dbs] = Some m3'"
      "length m3' = length m2" "same_outside ?B m2 m3'"
      "\<forall>i<length dbs. load m3' (4096 * (drs + dbs ! i)) 4096 = chunk bytes i"
      by blast
    from R8 False w(1) have "link_root m3' 12288 8192 (of_nat idx + 1) (base_name fp) t2 = Inr (out, free_idx r)"
      by auto
    then show thesis using that[of m3'] w by simp
  qed
  have lo4: "16384 \<le> 4096 * drs" by (rule g(1))
  have ok3: "image_ok m3"
  proof (rule image_ok_preserved[OF I(10) s23])
    show "{0..<112} \<inter> ?B = {}" using lo4 by fastforce
    show "{12288..<12416} \<inter> ?B = {}" using lo4 by fastforce
    have "4096 + 0 div 8 \<notin> ?B" using lo4 by fastforce
    from same_outside_test_bit[OF s23 this] show "test_bit m3 4096 0"
      using image_okD(13)[OF I(10)] by simp
    show "test_bit m3 8192 j" if "j < 32768" "test_bit m2 8192 j" for j
    proof -
      have "8192 + j div 8 \<notin> ?B" using lo4 that(1) by fastforce
      from same_outside_test_bit[OF s23 this] that(2) show ?thesis by simp
    qed
  qed
  have s13: "same_outside ({ino..<ino + 128} \<union> ?B) m1 m3"
    by (rule same_outside_trans[OF s12 s23]) simp
  have sb3: "sb_data_region_start m3 = sb_data_region_start img"
    "sb_data_region_blocks m3 = sb_data_region_blocks img"
    using same_outside_sb(10,11)[OF s23] lo4 sb2 by fastforce+
  note L = link_root_summary[OF ok3 lr, unfolded sb3, folded drs_def drb_def]
  obtain q dd ii where q: "drs \<le> q" "q < drs + drb" "dd < 12" "ii < 64"
    "unat (ino_direct out 12288 dd) = q" "unat (4096 * ino_direct out 12288 dd) = 4096 * q"
    "free_idx r = None \<longrightarrow> ino_direct m3 12288 dd = ino_direct out 12288 dd"
    "\<forall>f. free_idx r = Some f \<longrightarrow> q = drs + f"
    "same_outside ({8192..<12416} \<union> {4096 * q..<4096 * q + 4096}) m3 out"
    "de_inode_no out (4096 * q + ii * 64) = of_nat idx + 1" "de_type out (4096 * q + ii * 64) = 1"
    "de_name out (4096 * q + ii * 64) = namebuf_of (base_name fp)"
    using L(2) by (elim exE conjE) (rule that)
  have bit13: "test_bit m3 bm j = test_bit m1 bm j" if "bm + j div 8 < 12288" for bm j
  proof -
    have "bm + j div 8 \<notin> {ino..<ino + 128} \<union> ?B" using that I(3) lo4 by fastforce
    from same_outside_test_bit[OF s13 this] show ?thesis .
  qed
  have root13: "ino_direct m3 12288 d' = ino_direct img 12288 d'" if "d' < 12" for d'
  proof -
    have "{12288 + 44 + 4 * d'..<12288 + 44 + 4 * d' + 4} \<inter> ({ino..<ino + 128} \<union> ?B) = {}"
      using that I(3) lo4 by (fastforce simp: disjoint_iff)
    from same_outside_rd(3)[OF s13 this] have "ino_direct m3 12288 d' = ino_direct m1 12288 d'"
      by (simp add: ino_direct_def)
    moreover have "ino_direct m1 12288 d' = ino_direct img 12288 d'"
      unfolding ino_direct_def using that
      by (intro same_outside_rd(3)[OF A'(3)]) (auto simp: disjoint_iff)
    ultimately show ?thesis by simp
  qed
  show e5b: "f < drb \<and> f \<notin> set dbs \<and> \<not> test_bit img 8192 f \<and>
            (\<forall>j<f. j \<in> set dbs \<or> test_bit img 8192 j)" if "free_idx r = Some f" for f
  proof -
    note l = L(7)[OF that]
    have f15: "f < 32768" using l g(4) by simp
    have a: "test_bit m3 8192 j \<longleftrightarrow> j \<in> set dbs \<or> test_bit img 8192 j" if "j < 32768" for j
      using bit13[of 8192 j] A'(5)[OF that] that by simp
    have "\<forall>j<f. j \<in> set dbs \<or> test_bit img 8192 j"
    proof (intro allI impI)
      fix j assume "j < f"
      then have "test_bit m3 8192 j" "j < 32768" using l f15 by simp_all
      then show "j \<in> set dbs \<or> test_bit img 8192 j" using a by simp
    qed
    then show ?thesis using l a[OF f15] by simp
  qed
  have qn: "q \<noteq> drs + dbs ! i" if "i < length dbs" for i
  proof (cases "free_idx r")
    case None
    then have e: "ino_direct img 12288 dd = ino_direct out 12288 dd" using q(7) root13[OF q(3)] by simp
    then have "ino_direct img 12288 dd \<noteq> 0" using q(5) q(1) lo4 by (auto simp: unat_eq_0)
    from d(15)[OF q(3) this] have "test_bit img 8192 (q - drs)" using e q(5) by (simp add: drs_def)
    moreover have "\<not> test_bit img 8192 (dbs ! i)" using A'(1) that by simp
    ultimately show ?thesis by auto
  next
    case (Some f)
    then have "q = drs + f" "f \<notin> set dbs" using q(8) e5b by simp_all
    then show ?thesis using that by auto
  qed
  let ?RL = "{8192..<12416} \<union> {4096 * q..<4096 * q + 4096}"
  have ino_out: "\<And>b k. ino \<le> b \<Longrightarrow> b + k \<le> ino + 128 \<Longrightarrow> load out b k = load m3 b k"
  proof -
    fix b k assume "ino \<le> b" "b + k \<le> ino + 128"
    then have "{b..<b + k} \<inter> ?RL = {}" using I(3,4) q(1) by (auto simp: disjoint_iff)
    from same_outside_load[OF q(9) this] show "load out b k = load m3 b k" .
  qed
  have ino_3: "\<And>b k. ino \<le> b \<Longrightarrow> b + k \<le> ino + 128 \<Longrightarrow> load m3 b k = load m2 b k"
  proof -
    fix b k assume "ino \<le> b" "b + k \<le> ino + 128"
    then have "{b..<b + k} \<inter> ?B = {}" using I(4) by (fastforce simp: disjoint_iff)
    from same_outside_load[OF s23 this] show "load m3 b k = load m2 b k" .
  qed
  have ino_f: "\<And>b k. ino \<le> b \<Longrightarrow> b + k \<le> ino + 128 \<Longrightarrow> load out b k = load m2 b k"
    using ino_out ino_3 by simp
  show "ino_mode out ino = 0x8000" "ino_links out ino = 1"
      "ino_size_bytes out ino = of_nat (length bytes)"
    using I(5,6,7) ino_f[of ino 2] ino_f[of "ino + 2" 2] ino_f[of "ino + 12" 8]
    by (simp_all add: ino_mode_def ino_links_def ino_size_bytes_def rd16_def rd64_def)
  have dir_f: "ino_direct out ino i = ino_direct m2 ino i" if "i < 12" for i
    using ino_f[of "ino + 44 + 4 * i" 4] that by (simp add: ino_direct_def rd32_def)
  show "\<And>i. i < length dbs \<Longrightarrow> unat (ino_direct out ino i) = drs + dbs ! i \<and>
            unat (4096 * ino_direct out ino i) = 4096 * (drs + dbs ! i)"
    using I(8) dir_f n12 by simp
  show "\<And>i. length dbs \<le> i \<Longrightarrow> i < 12 \<Longrightarrow> ino_direct out ino i = 0"
    using I(9) dir_f by simp
  show "length bytes + 4095 < 2 ^ 44 \<Longrightarrow>
          (\<forall>i<length dbs. load out (4096 * (drs + dbs ! i)) 4096 = chunk bytes i)"
  proof (intro allI impI)
    fix i assume len: "length bytes + 4095 < 2 ^ 44" and i: "i < length dbs"
    have "{4096 * (drs + dbs ! i)..<4096 * (drs + dbs ! i) + 4096} \<inter> ?RL = {}"
      using qn[OF i] lo4 by (auto simp: disjoint_iff)
    from same_outside_load[OF q(9) this] ch[OF len] i
    show "load out (4096 * (drs + dbs ! i)) 4096 = chunk bytes i" by simp
  qed
  show l: "length out = length img" using L(1) l3 I(1) A'(2) by simp
  have s03: "same_outside ({4096..<12288} \<union> {ino..<ino + 128} \<union> ?B) img m3"
    by (rule same_outside_trans[OF A'(3) s13]) auto
  have "same_outside ({4096..<12288} \<union> {ino..<ino + 128} \<union> ?B \<union> ?RL) img out"
    by (rule same_outside_trans[OF s03 q(9)]) simp
  then show so: "same_outside {4096..<length img} img out"
    unfolding same_outside_def
  proof (intro conjI allI impI)
    fix a assume a: "length out = length img \<and> (\<forall>a<length img. a \<notin> {4096..<12288} \<union> {ino..<ino + 128} \<union> ?B \<union> ?RL \<longrightarrow> out ! a = img ! a)"
      "a < length img" "a \<notin> {4096..<length img}"
    then have "a < 4096" by simp
    then have "a \<notin> {4096..<12288} \<union> {ino..<ino + 128} \<union> ?B \<union> ?RL"
      using I(3) lo4 q(1) by fastforce
    then show "out ! a = img ! a" using a by blast
  qed simp
  show "test_bit out 4096 j \<longleftrightarrow> j = idx \<or> test_bit img 4096 j" if "j < 32768" for j
    using L(6)[OF that] bit13[of 4096 j] A'(4)[OF that] that by simp
  show e5c: "test_bit out 8192 j \<longleftrightarrow> j \<in> set (allocated_blocks r) \<or> test_bit img 8192 j" if "j < 32768" for j
    using L(5)[OF that] bit13[of 8192 j] A'(5)[OF that] that
    by (cases "free_idx r") (auto simp: allocated_blocks_def dbs_def)
  show "ino_links out 12288 = ino_links img 12288 + 1"
  proof -
    have "{12288 + 2..<12288 + 2 + 2} \<inter> ({4096..<12288} \<union> {ino..<ino + 128} \<union> ?B) = {}"
      using I(3) lo4 by (fastforce simp: disjoint_iff)
    from same_outside_rd(2)[OF s03 this] L(3) show ?thesis by (simp add: ino_links_def)
  qed
  show "ino_size_bytes out 12288 = ino_size_bytes img 12288 + 64"
  proof -
    have "{12288 + 12..<12288 + 12 + 8} \<inter> ({4096..<12288} \<union> {ino..<ino + 128} \<union> ?B) = {}"
      using I(3) lo4 by (fastforce simp: disjoint_iff)
    from same_outside_rd(4)[OF s03 this] L(4) show ?thesis by (simp add: ino_size_bytes_def)
  qed
  have dnz: "ino_direct out 12288 dd \<noteq> 0" using q(5) q(1) lo4 by (auto simp: unat_eq_0)
  show "\<exists>e d i. d < 12 \<and> i < 64 \<and> ino_direct out 12288 d \<noteq> 0 \<and>
          e = unat (4096 * ino_direct out 12288 d) + i * 64 \<and>
          de_inode_no out e = of_nat idx + 1 \<and> de_type out e = 1 \<and>
          de_name out e = namebuf_of (base_name fp)"
    apply (rule exI[of _ "4096 * q + ii * 64"], rule exI[of _ dd], rule exI[of _ ii])
    using q(3,4,6,10,11,12) dnz by simp
  show "\<And>d. d < 12 \<Longrightarrow> ino_direct out 12288 d = ino_direct img 12288 d \<or>
          (ino_direct img 12288 d = 0 \<and> (\<exists>f. free_idx r = Some f \<and> unat (ino_direct out 12288 d) = drs + f))"
    using L(8) root13 by simp
  have fsl: "find_slot m3 12288 [0..<12] = find_slot img 12288 [0..<12]"
  proof (rule find_slot_cong)
    show "\<And>d. d \<in> set [0..<12] \<Longrightarrow> ino_direct m3 12288 d = ino_direct img 12288 d"
      using root13 by simp
    fix d' i assume a: "d' \<in> set [0..<12]" "ino_direct img 12288 d' \<noteq> 0" "i < (64::nat)"
    then have d12: "d' < 12" by simp
    note b = root_block_addr[OF ok d12 a(2), folded drs_def drb_def]
    let ?p = "unat (ino_direct img 12288 d')"
    let ?e = "4096 * ?p + i * 64"
    have nb: "?p \<noteq> drs + dbs ! k" if "k < length dbs" for k
    proof -
      have "\<not> test_bit img 8192 (dbs ! k)" using A'(1) that by simp
      then show ?thesis using b(4) by auto
    qed
    have "{?e..<?e + 4} \<inter> ({4096..<12288} \<union> {ino..<ino + 128} \<union> ?B) = {}"
    proof -
      have 1: "ino + 128 \<le> ?e" using I(4) b(2) by simp
      have 2: "x \<notin> ?B" if "?e \<le> x" "x < ?e + 4" for x
      proof
        assume "x \<in> ?B"
        then obtain k where k: "k < length dbs" "4096 * (drs + dbs ! k) \<le> x" "x < 4096 * (drs + dbs ! k) + 4096"
          by auto
        have "4096 * ?p \<le> x" "x < 4096 * ?p + 4096" using that a(3) by simp_all
        then have "?p = drs + dbs ! k" using k(2,3) by simp
        then show False using nb[OF k(1)] by simp
      qed
      show ?thesis using 1 2 I(3) by (fastforce simp: disjoint_iff)
    qed
    from same_outside_rd(3)[OF s03 this]
    show "de_inode_no m3 (unat (4096 * ino_direct img 12288 d') + i * 64)
        = de_inode_no img (unat (4096 * ino_direct img 12288 d') + i * 64)"
      by (simp add: de_inode_no_def b(1))
  qed
  show "free_idx r = None \<and> de_inode_no out e = of_nat idx + 1 \<and>
          same_outside ({4096..<12416} \<union> {ino..<ino + 128} \<union> ?B \<union> {e..<e + 64}) img out"
    if "find_slot img 12288 [0..<12] = Some e" for e
  proof -
    note x = L(9)[OF that[folded fsl]]
    have "same_outside ({4096..<12416} \<union> {ino..<ino + 128} \<union> ?B \<union> {e..<e + 64}) img out"
      by (rule same_outside_trans[OF s03 x[THEN conjunct2, THEN conjunct1]]) auto
    then show ?thesis using x by simp
  qed
  show "find_slot img 12288 [0..<12] = None \<Longrightarrow> \<exists>f. free_idx r = Some f"
    using L(10) fsl by simp
  show "\<exists>d<12. ino_direct img 12288 d = 0 \<and> (\<forall>d'<d. ino_direct img 12288 d' \<noteq> 0) \<and>
          unat (ino_direct out 12288 d) = drs + f \<and>
          unat (4096 * ino_direct out 12288 d) = 4096 * (drs + f)"
    if "free_idx r = Some f" for f
  proof -
    from L(12)[OF that] obtain dd where dd: "dd < 12" "ino_direct m3 12288 dd = 0"
      "\<forall>d'<dd. ino_direct m3 12288 d' \<noteq> 0" "unat (ino_direct out 12288 dd) = drs + f"
      "unat (4096 * ino_direct out 12288 dd) = 4096 * (drs + f)"
      by blast
    have "\<forall>d'<dd. ino_direct img 12288 d' \<noteq> 0"
    proof (intro allI impI)
      fix d' assume "d' < dd"
      then show "ino_direct img 12288 d' \<noteq> 0" using dd(1,3) root13[of d'] by auto
    qed
    then show ?thesis using dd root13[OF dd(1)] by (intro exI[of _ dd]) simp
  qed
  show "de_inode_no out (4096 * (drs + f)) = of_nat idx + 1 \<and>
          (\<forall>i. 1 \<le> i \<and> i < 64 \<longrightarrow> de_inode_no out (4096 * (drs + f) + i * 64) = 0) \<and>
          same_outside ({4096..<12416} \<union> {ino..<ino + 128} \<union> ?B \<union>
            {4096 * (drs + f)..<4096 * (drs + f) + 4096}) img out"
    if "free_idx r = Some f" for f
  proof -
    note x = L(11)[OF that]
    have "same_outside ({4096..<12416} \<union> {ino..<ino + 128} \<union> ?B \<union>
            {4096 * (drs + f)..<4096 * (drs + f) + 4096}) img out"
      by (rule same_outside_trans[OF s03 x[THEN conjunct2, THEN conjunct2]]) auto
    then show ?thesis using x by simp
  qed
  show "image_ok out"
  proof (rule image_ok_preserved'[OF ok so])
    show "{0..<112} \<inter> {4096..<length img} = {}" by auto
    show "test_bit out 4096 0" using L(6)[of 0] image_okD(13)[OF ok3] by simp
    show "\<And>j. j < 32768 \<Longrightarrow> test_bit img 8192 j \<Longrightarrow> test_bit out 8192 j" using e5c by simp
    show "ino_direct out 12288 d' = ino_direct img 12288 d' \<or>
       (unat (sb_data_region_start img) \<le> unat (ino_direct out 12288 d') \<and>
        unat (ino_direct out 12288 d') < unat (sb_data_region_start img) + unat (sb_data_region_blocks img) \<and>
        test_bit out 8192 (unat (ino_direct out 12288 d') - unat (sb_data_region_start img)))" if "d' < 12" for d'
    proof -
      from L(8)[OF that] show ?thesis
      proof
        assume "ino_direct out 12288 d' = ino_direct m3 12288 d'"
        then show ?thesis using root13[OF that] by simp
      next
        assume "ino_direct m3 12288 d' = 0 \<and> (\<exists>f. free_idx r = Some f \<and> unat (ino_direct out 12288 d') = drs + f)"
        then obtain f where f: "free_idx r = Some f" "unat (ino_direct out 12288 d') = drs + f" by blast
        have "f < drb" using e5b[OF f(1)] by simp
        moreover from this have "f < 32768" using g(4) by simp
        then have "test_bit out 8192 f" using e5c[of f] f(1) by (simp add: allocated_blocks_def)
        ultimately show ?thesis using f(2) by (simp add: drs_def drb_def)
      qed
    qed
  qed
qed

subsection \<open>When the adder succeeds\<close>

lemma adder_unfold:
  fixes src :: source
  defines "fsize \<equiv> (of_nat (length (src_bytes src)) :: u64)"
  defines "need \<equiv> unat (need_blocks_of fsize)"
  assumes v: "validate img = None" and e: "src_exists src" "src_regular src"
    and a: "unat (4096 * sb_inode_bitmap_start img) = 4096"
      "unat (4096 * sb_data_bitmap_start img) = 8192"
      "unat (4096 * sb_inode_table_start img) = 12288"
    and n12: "need \<le> 12"
    and fi: "find_free_inode img 4096 = Some idx"
    and db: "dbs = find_free_blocks img 8192 need" and ld: "length dbs = need"
    and w: "if need \<noteq> 0
       then write_file_data
              (build_inode (foldl (\<lambda>m i. set_bit_c m 8192 (dbs ! i)) (set_bit_c img 4096 idx) [0..<need])
                 (12288 + 128 * idx) fsize t1 need dbs)
              (12288 + 128 * idx) need fsize (src_bytes src) [0..<need] = Some m3
       else m3 = build_inode (foldl (\<lambda>m i. set_bit_c m 8192 (dbs ! i)) (set_bit_c img 4096 idx) [0..<need])
                 (12288 + 128 * idx) fsize t1 need dbs"
    and lr: "link_root m3 12288 8192 (of_nat idx + 1) (base_name fp) t2 = Inr (out, ext)"
  shows "mkfs_adder_main img fp src t1 t2 =
           Inr \<lparr>out_img = out, new_ino_idx = idx, db_idxs = dbs, free_idx = ext\<rparr>"
proof -
  have n: "\<not> 12 < need_blocks_of fsize" using n12 by (simp add: need_def word_less_nat_alt)
  have z: "need_blocks_of fsize \<noteq> 0 \<longleftrightarrow> need \<noteq> 0" by (simp add: need_def unat_eq_0)
  have d0: "(if need \<noteq> 0 then find_free_blocks img 8192 need else []) = dbs"
    using db ld by auto
  show ?thesis
    unfolding mkfs_adder_main_def Let_def fsize_def[symmetric] a z need_def[symmetric] d0
    using v e n fi ld w lr
    by (cases "need = 0") simp_all
qed

lemma phases_total:
  fixes bytes :: "u8 list" and t1 :: u64
  assumes ok: "image_ok img" and fi: "find_free_inode img 4096 = Some idx"
    and db: "dbs = find_free_blocks img 8192 need" and ld: "length dbs = need" and n12: "need \<le> 12"
    and H: "need = 0 \<or> (length bytes + 4095 < 2 ^ 44 \<and> need = (length bytes + 4095) div 4096)"
  defines "m2 \<equiv> build_inode (foldl (\<lambda>m i. set_bit_c m 8192 (dbs ! i)) (set_bit_c img 4096 idx) [0..<need])
                 (12288 + 128 * idx) (of_nat (length bytes)) t1 need dbs"
  shows "\<exists>m3. (if need \<noteq> 0
            then write_file_data m2 (12288 + 128 * idx) need (of_nat (length bytes)) bytes [0..<need] = Some m3
            else m3 = m2) \<and>
          image_ok m3 \<and> (\<forall>d<12. ino_direct m3 12288 d = ino_direct img 12288 d) \<and>
          (\<forall>j<32768. test_bit m3 8192 j \<longleftrightarrow> j \<in> set dbs \<or> test_bit img 8192 j) \<and>
          sb_data_region_blocks m3 = sb_data_region_blocks img \<and>
          find_slot m3 12288 [0..<12] = find_slot img 12288 [0..<12]"
proof -
  note g = image_ok_geom[OF ok]
  let ?drs = "unat (sb_data_region_start img)"
  have db': "dbs = find_free_blocks img 8192 (length dbs)" using db ld by simp
  note A = alloc_phase[OF ok fi db']
  define m1 where "m1 = foldl (\<lambda>m i. set_bit_c m 8192 (dbs ! i)) (set_bit_c img 4096 idx) [0..<length dbs]"
  note A' = A(5-)[folded m1_def]
  have sb1: "sb_inode_count m1 = sb_inode_count img" "sb_data_region_start m1 = sb_data_region_start img"
    "sb_data_region_blocks m1 = sb_data_region_blocks img"
    using same_outside_sb(5,10,11)[OF A'(3)] by simp_all
  have dist: "distinct dbs" using find_free_blocks_props(2)[of img 8192 "length dbs"] db' by simp
  have m2: "m2 = build_inode m1 (12288 + 128 * idx) (of_nat (length bytes)) t1 (length dbs) dbs"
    by (simp add: m2_def m1_def ld)
  have i2: "idx < unat (sb_inode_count m1)" using A(2) sb1 by simp
  have xs1: "\<And>x. x \<in> set dbs \<Longrightarrow> x < unat (sb_data_region_blocks m1)" using A'(1) sb1 by simp
  have n12': "length dbs \<le> 12" using n12 ld by simp
  note I = inode_phase(1,2)[OF A'(6) A(1) i2 n12' xs1, where fsize = "of_nat (length bytes)" and t = t1,
      folded m2, unfolded sb1]
    inode_phase(3,4)[OF A'(6) A(1) i2 n12' xs1, unfolded sb1]
    inode_phase(5-10)[OF A'(6) A(1) i2 n12' xs1, where fsize = "of_nat (length bytes)" and t = t1,
      folded m2, unfolded sb1]
  have sb2: "sb_data_region_start m2 = sb_data_region_start img"
    "sb_data_region_blocks m2 = sb_data_region_blocks img"
    using same_outside_sb(10,11)[OF I(2)] I(3) sb1 by simp_all
  let ?B = "\<Union>i\<in>{..<length dbs}. {4096 * (?drs + dbs ! i)..<4096 * (?drs + dbs ! i) + 4096}"
  obtain m3 where w: "if need \<noteq> 0
            then write_file_data m2 (12288 + 128 * idx) need (of_nat (length bytes)) bytes [0..<need] = Some m3
            else m3 = m2"
    and s23: "same_outside ?B m2 m3"
  proof (cases "need = 0")
    case True
    then show thesis using that[of m2] ld by simp
  next
    case False
    then have len: "length bytes + 4095 < 2 ^ 44" and need: "length dbs = (length bytes + 4095) div 4096"
      using H ld by simp_all
    have hi2: "12288 + 128 * idx + 128 \<le> 4096 * unat (sb_data_region_start m2)" using I(4) sb2 by simp
    have dirs: "\<And>i. i < length dbs \<Longrightarrow>
        unat (4096 * ino_direct m2 (12288 + 128 * idx) i) = 4096 * (unat (sb_data_region_start m2) + dbs ! i)"
      using I(8) sb2 by simp
    have xs2: "\<And>x. x \<in> set dbs \<Longrightarrow> x < unat (sb_data_region_blocks m2)"
      using A'(1) sb2 by simp
    from data_phase[OF I(10) I(3) hi2 dirs dist xs2 n12' len need, unfolded sb2]
    obtain m3' where "write_file_data m2 (12288 + 128 * idx) (length dbs) (of_nat (length bytes)) bytes [0..<length dbs] = Some m3'"
      "same_outside ?B m2 m3'"
      by blast
    then show thesis using that[of m3'] False ld by simp
  qed
  have lo4: "16384 \<le> 4096 * ?drs" by (rule g(1))
  have ok3: "image_ok m3"
  proof (rule image_ok_preserved[OF I(10) s23])
    show "{0..<112} \<inter> ?B = {}" using lo4 by fastforce
    show "{12288..<12416} \<inter> ?B = {}" using lo4 by fastforce
    have "4096 + 0 div 8 \<notin> ?B" using lo4 by fastforce
    from same_outside_test_bit[OF s23 this] show "test_bit m3 4096 0"
      using image_okD(13)[OF I(10)] by simp
    show "test_bit m3 8192 j" if "j < 32768" "test_bit m2 8192 j" for j
    proof -
      have "8192 + j div 8 \<notin> ?B" using lo4 that(1) by fastforce
      from same_outside_test_bit[OF s23 this] that(2) show ?thesis by simp
    qed
  qed
  have s13: "same_outside ({12288 + 128 * idx..<12288 + 128 * idx + 128} \<union> ?B) m1 m3"
    by (rule same_outside_trans[OF I(2) s23 subset_refl])
  have bit13: "test_bit m3 8192 j = test_bit m1 8192 j" if "j < 32768" for j
  proof -
    have "8192 + j div 8 \<notin> {12288 + 128 * idx..<12288 + 128 * idx + 128} \<union> ?B" using that I(3) lo4 by fastforce
    from same_outside_test_bit[OF s13 this] show ?thesis .
  qed
  have root13: "ino_direct m3 12288 d' = ino_direct img 12288 d'" if "d' < 12" for d'
  proof -
    have "{12288 + 44 + 4 * d'..<12288 + 44 + 4 * d' + 4} \<inter> ({12288 + 128 * idx..<12288 + 128 * idx + 128} \<union> ?B) = {}"
      using that I(3) lo4 by (fastforce simp: disjoint_iff)
    from same_outside_rd(3)[OF s13 this] have "ino_direct m3 12288 d' = ino_direct m1 12288 d'"
      by (simp add: ino_direct_def)
    moreover have "ino_direct m1 12288 d' = ino_direct img 12288 d'"
      unfolding ino_direct_def using that
      by (intro same_outside_rd(3)[OF A'(3)]) (auto simp: disjoint_iff)
    ultimately show ?thesis by simp
  qed
  have sb3: "sb_data_region_blocks m3 = sb_data_region_blocks img"
    using same_outside_sb(11)[OF s23] lo4 sb2 by fastforce
  have s03: "same_outside ({4096..<12288} \<union> {12288 + 128 * idx..<12288 + 128 * idx + 128} \<union> ?B) img m3"
    by (rule same_outside_trans[OF A'(3) s13]) auto
  have cl: "\<forall>x \<in> set dbs. \<not> test_bit img 8192 x" using A'(1) by simp
  note fsl = find_slot_frame(1)[OF ok A(1,2) cl s03]
  show ?thesis
    using w ok3 root13 bit13 A'(5) sb3 fsl by (intro exI[of _ m3]) simp
qed

lemma link_root_total:
  assumes ok: "image_ok m" and z: "\<exists>d<12. ino_direct m 12288 d = 0"
    and f: "\<exists>j<unat (sb_data_region_blocks m). \<not> test_bit m 8192 j"
  shows "\<exists>out ext. link_root m 12288 8192 ino_no base now = Inr (out, ext)"
proof (cases "find_slot m 12288 [0..<12]")
  case (Some e)
  from link_root_slot(1)[OF ok Some] show ?thesis by blast
next
  case None
  obtain slot where s: "find (\<lambda>d. ino_direct m 12288 d = 0) [0..<12] = Some slot"
    using z by (cases "find (\<lambda>d. ino_direct m 12288 d = 0) [0..<12]") (auto simp: find_upt_None)
  obtain fr where fr: "find (\<lambda>i. \<not> test_bit m 8192 i) [0..<unat (ucast (sb_data_region_blocks m) :: u32)] = Some fr"
    using f image_ok_limits(2)[OF ok]
    by (cases "find (\<lambda>i. \<not> test_bit m 8192 i) [0..<unat (ucast (sb_data_region_blocks m) :: u32)]")
      (auto simp: find_upt_None)
  from link_root_ext(1)[OF ok None s fr] show ?thesis by blast
qed

lemma adder_total_gen:
  fixes src :: source
  defines "need \<equiv> unat (need_blocks_of (of_nat (length (src_bytes src))))"
  assumes ok: "image_ok img" and e: "src_exists src" "src_regular src"
    and n12: "need \<le> 12"
    and H: "need = 0 \<or> length (src_bytes src) + 4095 < 2 ^ 44"
    and fi: "\<exists>j<unat (sb_inode_count img). \<not> test_bit img 4096 j"
    and fb: "need \<le> card {j. j < unat (sb_data_region_blocks img) \<and> \<not> test_bit img 8192 j}"
    and alt: "find_slot img 12288 [0..<12] \<noteq> None \<or>
      (need < card {j. j < unat (sb_data_region_blocks img) \<and> \<not> test_bit img 8192 j} \<and>
       (\<exists>d<12. ino_direct img 12288 d = 0))"
  shows "\<exists>r. mkfs_adder_main img fp src t1 t2 = Inr r"
proof -
  note d = image_okD[OF ok]
  note lim = image_ok_limits[OF ok]
  let ?F = "{j. j < unat (sb_data_region_blocks img) \<and> \<not> test_bit img 8192 j}"
  obtain idx where idx: "find_free_inode img 4096 = Some idx"
    using fi by (cases "find_free_inode img 4096") (auto simp: find_free_inode_def find_upt_None lim)
  define dbs where "dbs = find_free_blocks img 8192 need"
  have ld: "length dbs = need"
    using fb by (simp add: dbs_def find_free_blocks_props(6) lim)
  have H': "need = 0 \<or> (length (src_bytes src) + 4095 < 2 ^ 44 \<and> need = (length (src_bytes src) + 4095) div 4096)"
    using H unat_need_blocks_of[of "length (src_bytes src)"] by (auto simp: need_def)
  from phases_total[OF ok idx dbs_def ld n12 H', where ?t1.0 = t1]
  obtain m3 where m3: "if need \<noteq> 0
       then write_file_data
              (build_inode (foldl (\<lambda>m i. set_bit_c m 8192 (dbs ! i)) (set_bit_c img 4096 idx) [0..<need])
                 (12288 + 128 * idx) (of_nat (length (src_bytes src))) t1 need dbs)
              (12288 + 128 * idx) need (of_nat (length (src_bytes src))) (src_bytes src) [0..<need] = Some m3
       else m3 = build_inode (foldl (\<lambda>m i. set_bit_c m 8192 (dbs ! i)) (set_bit_c img 4096 idx) [0..<need])
                 (12288 + 128 * idx) (of_nat (length (src_bytes src))) t1 need dbs"
    and ok3: "image_ok m3" and r3: "\<forall>d<12. ino_direct m3 12288 d = ino_direct img 12288 d"
    and b3: "\<forall>j<32768. test_bit m3 8192 j \<longleftrightarrow> j \<in> set dbs \<or> test_bit img 8192 j"
    and sb3: "sb_data_region_blocks m3 = sb_data_region_blocks img"
    and fs3: "find_slot m3 12288 [0..<12] = find_slot img 12288 [0..<12]"
    by blast
  have "\<exists>out ext. link_root m3 12288 8192 (of_nat idx + 1) (base_name fp) t2 = Inr (out, ext)"
  proof (cases "find_slot img 12288 [0..<12]")
    case (Some e)
    from link_root_slot(1)[OF ok3 Some[folded fs3]] show ?thesis by blast
  next
    case None
    then have fb': "need < card ?F" and z: "\<exists>d<12. ino_direct img 12288 d = 0" using alt by simp_all
    have z3: "\<exists>d<12. ino_direct m3 12288 d = 0" using z r3 by auto
    have "finite ?F" by simp
    moreover have "card (set dbs) \<le> need" using ld card_length[of dbs] by simp
    ultimately have "\<not> ?F \<subseteq> set dbs" using fb'
      by (metis card_mono List.finite_set leD le_less_trans not_less order.trans)
    then obtain j where j: "j < unat (sb_data_region_blocks img)" "\<not> test_bit img 8192 j" "j \<notin> set dbs" by auto
    then have "j < 32768" using d(12) by simp
    then have "\<not> test_bit m3 8192 j" using b3 j by simp
    then have f3: "\<exists>j<unat (sb_data_region_blocks m3). \<not> test_bit m3 8192 j" using j(1) sb3 by auto
    from link_root_total[OF ok3 z3 f3, of "of_nat idx + 1" "base_name fp" t2]
    show ?thesis .
  qed
  then obtain out ext where lr: "link_root m3 12288 8192 (of_nat idx + 1) (base_name fp) t2 = Inr (out, ext)"
    by blast
  from adder_unfold[OF d(1) e d(3,4,5) n12[unfolded need_def] idx dbs_def[unfolded need_def] ld[unfolded need_def]
      m3[unfolded need_def] lr]
  show ?thesis by blast
qed

lemma adder_total:
  fixes src :: source
  defines "need \<equiv> unat (need_blocks_of (of_nat (length (src_bytes src))))"
  assumes ok: "image_ok img" and e: "src_exists src" "src_regular src"
    and n12: "need \<le> 12"
    and H: "need = 0 \<or> length (src_bytes src) + 4095 < 2 ^ 44"
    and fi: "\<exists>j<unat (sb_inode_count img). \<not> test_bit img 4096 j"
    and fb: "need < card {j. j < unat (sb_data_region_blocks img) \<and> \<not> test_bit img 8192 j}"
    and z: "\<exists>d<12. ino_direct img 12288 d = 0"
  shows "\<exists>r. mkfs_adder_main img fp src t1 t2 = Inr r"
proof (rule adder_total_gen[OF ok e n12[unfolded need_def] H[unfolded need_def] fi])
  show "unat (need_blocks_of (of_nat (length (src_bytes src))))
      \<le> card {j. j < unat (sb_data_region_blocks img) \<and> \<not> test_bit img 8192 j}"
    using fb by (simp add: need_def)
  show "find_slot img 12288 [0..<12] \<noteq> None \<or>
      (unat (need_blocks_of (of_nat (length (src_bytes src))))
         < card {j. j < unat (sb_data_region_blocks img) \<and> \<not> test_bit img 8192 j} \<and>
       (\<exists>d<12. ino_direct img 12288 d = 0))"
    using fb z by (simp add: need_def)
qed

lemma fresh_total:
  assumes b: "mkfs_builder_main s n ta tb = Inr img" and e: "src_exists src" "src_regular src"
    and n12: "unat (need_blocks_of (of_nat (length (src_bytes src)))) \<le> 12"
    and H: "unat (need_blocks_of (of_nat (length (src_bytes src)))) = 0 \<or> length (src_bytes src) + 4095 < 2 ^ 44"
  shows "\<exists>r. mkfs_adder_main img fp src t1 t2 = Inr r"
proof (rule adder_total[OF builder_image_ok[OF b] e n12 H])
  note f = builder_facts[OF b]
  note p = parse_cli_bounds[OF builder_Inr(1)[OF b]]
  show "\<exists>j<unat (sb_inode_count img). \<not> test_bit img 4096 j"
    using f(22) p(4) builder_bitmaps(1)[OF b, of 1] by (intro exI[of _ 1]) simp
  show "\<exists>d<12. ino_direct img 12288 d = 0"
    using builder_root_fields(7)[OF b, of 1] by (intro exI[of _ 1]) simp
  let ?drb = "unat (sb_data_region_blocks img)"
  have drb: "26 \<le> ?drb" "?drb \<le> 32768" using f(2-5,21) by linarith+
  have "{1..<?drb} \<subseteq> {j. j < ?drb \<and> \<not> test_bit img 8192 j}"
    using builder_bitmaps(2)[OF b] drb by auto
  then have "card {1..<?drb} \<le> card {j. j < ?drb \<and> \<not> test_bit img 8192 j}"
    by (intro card_mono) simp_all
  then show "unat (need_blocks_of (of_nat (length (src_bytes src)))) < card {j. j < ?drb \<and> \<not> test_bit img 8192 j}"
    using n12 drb by simp
qed

subsection \<open>The concrete inputs\<close>

lemma fresh_img_eq: "mkfs_builder_main 1024 128 0 0 = Inr fresh_img"
proof -
  have "parse_cli 1024 128" by (simp add: parse_cli_def)
  from builder_total[OF this, of 0 0] show ?thesis by (auto simp: fresh_img_def)
qed

lemmas fresh_ok = builder_image_ok[OF fresh_img_eq]

lemma fresh_geometry:
  "length fresh_img = 4096 * 256" "unat (sb_inode_count fresh_img) = 128"
  "unat (sb_data_region_start fresh_img) = 7" "unat (sb_data_region_blocks fresh_img) = 249"
  using builder_facts(1,20,21,22)[OF fresh_img_eq] by simp_all

lemma load_all: "load m 0 (length m) = m"
  by (simp add: load_def)

lemma store_store_same: "length bs = length bs' \<Longrightarrow> store (store m a bs) a bs' = store m a bs'"
  by (simp add: store_def)

lemma superblock_crc_finalize_wr:
  "superblock_crc_finalize (wr32 sb 112 c) = superblock_crc_finalize sb"
  by (simp add: superblock_crc_finalize_def Let_def wr32_def store_store_same)

lemma load_store_inside:
  assumes "a + length bs \<le> n" "n \<le> length m"
  shows "load (store m a bs) 0 n = store (load m 0 n) a bs"
proof (rule nth_equalityI)
  show "length (load (store m a bs) 0 n) = length (store (load m 0 n) a bs)"
    using assms by (simp add: load_def)
  fix i assume "i < length (load (store m a bs) 0 n)"
  then have i: "i < n" by (simp add: load_def)
  then show "load (store m a bs) 0 n ! i = store (load m 0 n) a bs ! i"
    using assms by (simp add: nth_store length_load) (simp add: load_def nth_store)
qed

lemma stored_crc_fresh: "stored_crc_ok fresh_img"
proof -
  note e = builder_Inr(2)[OF fresh_img_eq]
  let ?sb = "build_superblock (total_blocks_of 1024) 128 (inode_tbl_blks_of 128) 0"
  have "load fresh_img 0 116 = load ?sb 0 116"
    unfolding e by (intro builder_img_sb) simp_all
  then have l: "load fresh_img 0 116 = ?sb" using load_all[of ?sb] by simp
  have l4: "load fresh_img 112 4 = load ?sb 112 4"
    unfolding e by (intro builder_img_sb) simp_all
  have "superblock_crc_finalize ?sb = ?sb"
    unfolding build_superblock_def Let_def
    by (simp add: superblock_crc_finalize_def Let_def wr32_def store_store_same)
  then show ?thesis by (simp add: stored_crc_ok_def l l4 sb_checksum_def rd32_def)
qed

lemma corrupt_frame: "same_outside {112..<116} fresh_img corrupt_img"
  using same_outside_wr(3)[of 112 fresh_img] by (simp add: corrupt_img_def)

lemma stored_crc_corrupt: "\<not> stored_crc_ok corrupt_img"
proof -
  have l: "load corrupt_img 0 116 = wr32 (load fresh_img 0 116) 112 (sb_checksum fresh_img XOR 1)"
    unfolding corrupt_img_def wr32_def by (rule load_store_inside) (simp_all add: fresh_geometry)
  have "sb_checksum corrupt_img = sb_checksum fresh_img XOR 1"
    by (simp add: corrupt_img_def sb_checksum_def rd32_def wr32_def load_store_same
        le_word_le_bytes_id fresh_geometry)
  moreover have "sb_checksum fresh_img XOR 1 \<noteq> sb_checksum fresh_img"
    by (metis even_xor_iff odd_one)
  ultimately show ?thesis
    using stored_crc_fresh by (simp add: stored_crc_ok_def l superblock_crc_finalize_wr)
qed

lemma corrupt_ok: "image_ok corrupt_img"
proof (rule image_ok_preserved[OF fresh_ok corrupt_frame])
  show "test_bit corrupt_img 4096 0"
    using same_outside_test_bit[OF corrupt_frame, of 4096 0] image_okD(13)[OF fresh_ok] by simp
  show "test_bit corrupt_img 8192 j" if "j < 32768" "test_bit fresh_img 8192 j" for j
    using same_outside_test_bit[OF corrupt_frame, of 8192 j] that by simp
qed auto

lemma corrupt_total:
  assumes "src_exists src" "src_regular src"
    "unat (need_blocks_of (of_nat (length (src_bytes src)))) \<le> 12"
    "unat (need_blocks_of (of_nat (length (src_bytes src)))) = 0 \<or> length (src_bytes src) + 4095 < 2 ^ 44"
  shows "\<exists>r. mkfs_adder_main corrupt_img fp src t1 t2 = Inr r"
proof (rule adder_total[OF corrupt_ok assms])
  note s = same_outside_sb[OF corrupt_frame]
  have c: "unat (sb_inode_count corrupt_img) = 128" "unat (sb_data_region_blocks corrupt_img) = 249"
    using s(5,11) fresh_geometry by simp_all
  have t: "test_bit corrupt_img bm j = test_bit fresh_img bm j" if "4096 \<le> bm" for bm j
    using that by (intro same_outside_test_bit[OF corrupt_frame]) simp
  show "\<exists>j<unat (sb_inode_count corrupt_img). \<not> test_bit corrupt_img 4096 j"
    using builder_bitmaps(1)[OF fresh_img_eq, of 1] by (intro exI[of _ 1]) (simp add: c t)
  have "ino_direct corrupt_img 12288 1 = ino_direct fresh_img 12288 1"
    unfolding ino_direct_def by (intro same_outside_rd(3)[OF corrupt_frame]) simp
  then show "\<exists>d<12. ino_direct corrupt_img 12288 d = 0"
    using builder_root_fields(7)[OF fresh_img_eq, of 1] by (intro exI[of _ 1]) simp
  have "{1..<249} \<subseteq> {j. j < 249 \<and> \<not> test_bit corrupt_img 8192 j}"
    using builder_bitmaps(2)[OF fresh_img_eq] by (auto simp: t)
  then have "card {1..<249::nat} \<le> card {j. j < 249 \<and> \<not> test_bit corrupt_img 8192 j}"
    by (intro card_mono) simp_all
  then show "unat (need_blocks_of (of_nat (length (src_bytes src))))
      < card {j. j < unat (sb_data_region_blocks corrupt_img) \<and> \<not> test_bit corrupt_img 8192 j}"
    using assms(3) by (simp add: c)
qed

lemma small_src_need: "unat (need_blocks_of (of_nat (length (src_bytes small_src)))) = 1"
  by (simp add: small_src_def need_blocks_of_def)

lemma empty_src_need: "unat (need_blocks_of (of_nat (length (src_bytes empty_src)))) = 0"
  by (simp add: empty_src_def need_blocks_of_def)

lemma huge_src_need: "unat (need_blocks_of (of_nat (length (src_bytes huge_src)))) = 0"
  by (simp add: huge_src_def need_blocks_of_def)

lemma full_img_facts:
  shows "same_outside {8192..<12288} fresh_img full_img"
    and "image_ok full_img"
    and "\<And>i. i < 32768 \<Longrightarrow> test_bit full_img 8192 i"
    and "\<And>i. i < 32768 \<Longrightarrow> test_bit full_img 4096 i = test_bit fresh_img 4096 i"
    and "unat (sb_inode_count full_img) = 128" "unat (sb_data_region_blocks full_img) = 249"
    and "{i. i < unat (sb_data_region_blocks full_img) \<and> \<not> test_bit full_img 8192 i} = {}"
proof -
  show so: "same_outside {8192..<12288} fresh_img full_img"
    using same_outside_store[of 8192 "replicate 4096 255" fresh_img] by (simp add: full_img_def)
  show full: "test_bit full_img 8192 i" if "i < 32768" for i
  proof -
    have "8192 + i div 8 + 1 \<le> 12288" using that by simp
    then have "load full_img (8192 + i div 8) 1 = load (replicate 4096 255) (i div 8) 1"
      unfolding full_img_def by (subst load_store_sub) (simp_all add: fresh_geometry(1))
    also have "\<dots> = [255]" using that by (simp add: load_replicate)
    finally have "rd8 full_img (8192 + i div 8) = - 1" by (simp add: rd8_def)
    then show ?thesis by (simp add: test_bit_iff)
  qed
  show ib: "test_bit full_img 4096 i = test_bit fresh_img 4096 i" if "i < 32768" for i
    using that by (intro same_outside_test_bit[OF so]) simp
  show "image_ok full_img"
  proof (rule image_ok_preserved[OF fresh_ok so])
    show "test_bit full_img 4096 0" using ib[of 0] image_okD(13)[OF fresh_ok] by simp
    show "\<And>j. j < 32768 \<Longrightarrow> test_bit fresh_img 8192 j \<Longrightarrow> test_bit full_img 8192 j"
      using full by simp
  qed auto
  have cnt: "sb_inode_count full_img = sb_inode_count fresh_img"
    "sb_data_region_blocks full_img = sb_data_region_blocks fresh_img"
    using same_outside_sb(5,11)[OF so] by auto
  show "unat (sb_inode_count full_img) = 128" "unat (sb_data_region_blocks full_img) = 249"
    by (simp_all add: cnt fresh_geometry)
  show "{i. i < unat (sb_data_region_blocks full_img) \<and> \<not> test_bit full_img 8192 i} = {}"
    using full by (auto simp: cnt fresh_geometry(4))
qed

subsection \<open>Validation of the superblock\<close>

text \<open>
  C1 as stated fails: the adder never recomputes the superblock checksum. The image
  formatted for 1024 KiB and 128 inodes carries the checksum the builder computed;
  with its lowest bit flipped the stored value no longer agrees with the recomputed
  one, and the adder still adds a one-byte file and returns 0.
\<close>

theorem checksum_not_validated_counterexample:
  "stored_crc_ok fresh_img \<and> \<not> stored_crc_ok corrupt_img \<and>
   \<not> isl (mkfs_adder_main corrupt_img ''a.txt'' small_src 0 0)"
proof -
  have "\<exists>r. mkfs_adder_main corrupt_img ''a.txt'' small_src 0 0 = Inr r"
    by (rule corrupt_total) (simp_all add: small_src_need, simp_all add: small_src_def)
  then show ?thesis using stored_crc_fresh stored_crc_corrupt by auto
qed

text \<open>
  C1 amended: of the superblock, the adder validates the magic number, the version,
  the block size and the total block count, and nothing else. For an image of at
  least one block and of whole blocks, the validation passes exactly when the four
  fields have their expected values; a mismatch in any of them stops the run with
  exit code 3 before any mutation or write (the buffer is the image read). The checksum
  field takes no part: overwriting it with any value never changes the result of the
  validation, whether the image validates or not.
\<close>

theorem adder_validates_header:
  assumes "4096 \<le> length img" and "length img mod 4096 = 0"
  shows "(validate img = None \<longleftrightarrow>
            sb_magic img = 0x4D565346 \<and> sb_version img = 1 \<and> sb_block_size img = 4096 \<and>
            sb_total_blocks img = of_nat (length img div 4096)) \<and>
         (sb_magic img \<noteq> 0x4D565346 \<or> sb_version img \<noteq> 1 \<or> sb_block_size img \<noteq> 4096 \<or>
          sb_total_blocks img \<noteq> of_nat (length img div 4096) \<longrightarrow>
            (\<exists>e. mkfs_adder_main img filepath src now_ino now = Inl (e, img) \<and> exit_code e = 3)) \<and>
         validate (wr32 img 112 c) = validate img"
proof -
  have 1: "validate img = None \<longleftrightarrow>
            sb_magic img = 0x4D565346 \<and> sb_version img = 1 \<and> sb_block_size img = 4096 \<and>
            sb_total_blocks img = of_nat (length img div 4096)"
    using assms(2) by (auto simp: validate_def)
  have 2: "\<exists>e. mkfs_adder_main img filepath src now_ino now = Inl (e, img) \<and> exit_code e = 3"
    if "sb_magic img \<noteq> 0x4D565346 \<or> sb_version img \<noteq> 1 \<or> sb_block_size img \<noteq> 4096 \<or>
          sb_total_blocks img \<noteq> of_nat (length img div 4096)"
  proof -
    have "validate img = Some NotMiniVSFS \<or> validate img = Some TotalBlocksMismatch"
      using assms(2) that by (auto simp: validate_def)
    then show ?thesis
      using adder_validate_fail[of img _ filepath src now_ino now] by auto
  qed
  have "same_outside {112..<112 + 4} img (wr32 img 112 c)" by (rule same_outside_wr)
  then have 3: "validate (wr32 img 112 c) = validate img"
    by (rule same_outside_sb(13)) auto
  show ?thesis using 1 2 3 by blast
qed

theorem adder_validates_header_witness:
  "4096 \<le> length (wr32 fresh_img 0 0) \<and> length (wr32 fresh_img 0 0) mod 4096 = 0 \<and>
   sb_magic (wr32 fresh_img 0 0) \<noteq> 0x4D565346 \<and>
   validate (wr32 fresh_img 0 0) \<noteq> None \<and>
   (\<exists>e. mkfs_adder_main (wr32 fresh_img 0 0) ''a.txt'' small_src 0 0 = Inl (e, wr32 fresh_img 0 0) \<and>
        exit_code e = 3) \<and>
   validate (wr32 (wr32 fresh_img 0 0) 112 1) = validate (wr32 fresh_img 0 0)"
proof -
  have l: "4096 \<le> length (wr32 fresh_img 0 0)" "length (wr32 fresh_img 0 0) mod 4096 = 0"
    by (simp_all add: fresh_geometry(1))
  have "load (wr32 fresh_img 0 0) 0 4 = le_bytes 4 (0::u32)"
    unfolding wr32_def by (rule load_store_same) (simp_all add: fresh_geometry(1))
  then have "sb_magic (wr32 fresh_img 0 0) = 0"
    by (simp add: sb_magic_def rd32_def le_word_le_bytes_id)
  then have m: "sb_magic (wr32 fresh_img 0 0) \<noteq> 0x4D565346" by simp
  from adder_validates_header[OF l, of "''a.txt''" small_src 0 0 1] m l
  show ?thesis by blast
qed

subsection \<open>The root's link count\<close>

text \<open>
  C2 as stated fails: adding a one-byte file to the freshly formatted image leaves
  the root inode with 3 links, not 2.
\<close>

theorem root_links_counterexample:
  "ino_links fresh_img 12288 = 2 \<and>
   \<not> isl (mkfs_adder_main fresh_img ''a.txt'' small_src 0 0) \<and>
   ino_links (out_img (projr (mkfs_adder_main fresh_img ''a.txt'' small_src 0 0))) 12288 = 3"
proof -
  obtain r where r: "mkfs_adder_main fresh_img ''a.txt'' small_src 0 0 = Inr r"
    using fresh_total[OF fresh_img_eq, of small_src "''a.txt''" 0 0]
    by (auto simp: small_src_need) (auto simp: small_src_def)
  have "db_idxs r = [] \<or> length (src_bytes small_src) + 4095 < 2 ^ 44" by (simp add: small_src_def)
  from adder_effects(14)[OF fresh_ok r this] builder_root_fields(2)[OF fresh_img_eq]
  show ?thesis by (simp add: r)
qed

text \<open>
  C2 amended: every successful run of the adder on a well-formed image, for a source
  file below \<open>2^44 - 4095\<close> bytes, increments the link count of the root inode by one
  (both directory-insertion paths execute \<open>root->links += 1\<close>).
\<close>

theorem root_links_incremented:
  assumes "image_ok img" and "mkfs_adder_main img filepath src now_ino now = Inr r"
    and "length (src_bytes src) + 4095 < 2 ^ 44"
  shows "ino_links (out_img r) (unat (4096 * sb_inode_table_start img) + 128 * 0) =
         ino_links img (unat (4096 * sb_inode_table_start img) + 128 * 0) + 1"
  using adder_effects(14)[OF assms(1,2)] assms(3) image_okD(5)[OF assms(1)] by simp

theorem root_links_incremented_witness:
  "image_ok fresh_img \<and>
   \<not> isl (mkfs_adder_main fresh_img ''b.txt'' empty_src 0 0) \<and>
   length (src_bytes empty_src) + 4095 < 2 ^ 44 \<and>
   ino_links (out_img (projr (mkfs_adder_main fresh_img ''b.txt'' empty_src 0 0)))
     (unat (4096 * sb_inode_table_start fresh_img) + 128 * 0) =
   ino_links fresh_img (unat (4096 * sb_inode_table_start fresh_img) + 128 * 0) + 1"
proof -
  obtain r where r: "mkfs_adder_main fresh_img ''b.txt'' empty_src 0 0 = Inr r"
    using fresh_total[OF fresh_img_eq, of empty_src "''b.txt''" 0 0]
    by (auto simp: empty_src_need) (auto simp: empty_src_def)
  have l: "length (src_bytes empty_src) + 4095 < 2 ^ 44" by (simp add: empty_src_def)
  from root_links_incremented[OF fresh_ok r l] fresh_ok l show ?thesis by (simp add: r)
qed

subsection \<open>Not enough space\<close>

text \<open>
  C3: on a well-formed image, when the data bitmap has fewer clear bits below
  \<open>data_region_blocks\<close> than the \<open>ceil(fsize / 4096)\<close> blocks the file needs (at most 12),
  the adder stops with exit code 6 and the buffer is the image it read, bit for bit, so
  that neither bitmap has changed; no output is written. The message is
  \<open>Not enough free data blocks\<close> when an inode is free (the scan only records indices,
  bits are set after it succeeded) and \<open>No free inodes\<close> otherwise (the inode scan comes
  first).
\<close>

theorem no_space_leaves_image:
  assumes "image_ok img" "src_exists src" "src_regular src"
    and "(length (src_bytes src) + 4095) div 4096 \<le> 12"
    and "card {i. i < unat (sb_data_region_blocks img) \<and>
                  \<not> test_bit img (unat (4096 * sb_data_bitmap_start img)) i}
         < (length (src_bytes src) + 4095) div 4096"
  shows "mkfs_adder_main img filepath src now_ino now =
           Inl (if (\<exists>j<unat (sb_inode_count img).
                      \<not> test_bit img (unat (4096 * sb_inode_bitmap_start img)) j)
                then NotEnoughDataBlocks else NoFreeInodes, img) \<and>
         exit_code NotEnoughDataBlocks = 6 \<and> exit_code NoFreeInodes = 6"
proof -
  let ?len = "length (src_bytes src)"
  note d = image_okD[OF assms(1)]
  note lim = image_ok_limits[OF assms(1)]
  have l: "?len + 4095 < 2 ^ 44" using assms(4) by simp
  note u = unat_need_blocks_of[OF l]
  have n: "need_blocks_of (of_nat ?len) \<le> 12"
    using assms(4) by (simp add: need_blocks_of_le_12[OF l])
  show ?thesis
  proof (cases "find_free_inode img (unat (4096 * sb_inode_bitmap_start img))")
    case None
    then have "\<not> (\<exists>j<unat (sb_inode_count img).
                      \<not> test_bit img (unat (4096 * sb_inode_bitmap_start img)) j)"
      by (simp add: find_free_inode_def find_upt_None lim)
    then show ?thesis using adder_no_inode[OF d(1) assms(2,3) n None] by simp
  next
    case (Some idx)
    then have e: "\<exists>j<unat (sb_inode_count img).
                      \<not> test_bit img (unat (4096 * sb_inode_bitmap_start img)) j"
      by (auto simp: find_free_inode_def find_upt_Some lim)
    have "length (find_free_blocks img (unat (4096 * sb_data_bitmap_start img)) ((?len + 4095) div 4096))
        < (?len + 4095) div 4096"
      using assms(5) by (simp add: find_free_blocks_props(6) lim)
    then show ?thesis
      using adder_not_enough[OF d(1) assms(2,3) n Some] e by (simp add: u)
  qed
qed

theorem no_space_leaves_image_witness:
  "image_ok full_img \<and>
   card {i. i < unat (sb_data_region_blocks full_img) \<and>
            \<not> test_bit full_img (unat (4096 * sb_data_bitmap_start full_img)) i} = 0 \<and>
   (length (src_bytes small_src) + 4095) div 4096 = 1 \<and>
   mkfs_adder_main full_img ''a.txt'' small_src 0 0 = Inl (NotEnoughDataBlocks, full_img)"
proof -
  note F = full_img_facts
  have a: "unat (4096 * sb_inode_bitmap_start full_img) = 4096"
    "unat (4096 * sb_data_bitmap_start full_img) = 8192"
    by (rule image_okD(3,4)[OF F(2)])+
  have "\<not> test_bit full_img 4096 1"
    using F(4)[of 1] builder_bitmaps(1)[OF fresh_img_eq, of 1] by simp
  then have fi: "\<exists>j<unat (sb_inode_count full_img).
      \<not> test_bit full_img (unat (4096 * sb_inode_bitmap_start full_img)) j"
    unfolding a F(5) by (intro exI[of _ 1]) simp
  have s: "src_exists small_src" "src_regular small_src"
    "(length (src_bytes small_src) + 4095) div 4096 \<le> 12"
    "(length (src_bytes small_src) + 4095) div 4096 = 1"
    by (simp_all add: small_src_def)
  have c0: "card {i. i < unat (sb_data_region_blocks full_img) \<and>
                  \<not> test_bit full_img (unat (4096 * sb_data_bitmap_start full_img)) i} = 0"
    unfolding a F(7) by simp
  then have c: "card {i. i < unat (sb_data_region_blocks full_img) \<and>
                  \<not> test_bit full_img (unat (4096 * sb_data_bitmap_start full_img)) i}
         < (length (src_bytes small_src) + 4095) div 4096"
    unfolding s(4) by simp
  from no_space_leaves_image[OF F(2) s(1-3) c, of "''a.txt''" 0 0] fi
  have "mkfs_adder_main full_img ''a.txt'' small_src 0 0 = Inl (NotEnoughDataBlocks, full_img)"
    by simp
  then show ?thesis using F(2) c0 s(4) by simp
qed

subsection \<open>The size check\<close>

lemma too_large_rejected:
  assumes "validate img = None" "src_exists src" "src_regular src"
    and "12 < (length (src_bytes src) + 4095) div 4096" "length (src_bytes src) + 4095 < 2 ^ 44"
  shows "mkfs_adder_main img filepath src now_ino now = Inl (FileTooLarge, img)"
proof -
  have "12 < need_blocks_of (of_nat (length (src_bytes src)))"
    using assms(4) by (simp add: word_less_nat_alt unat_need_blocks_of[OF assms(5)])
  then show ?thesis by (rule adder_too_large[OF assms(1-3)])
qed

text \<open>
  C4, the failing input: a regular file of exactly \<open>2^44\<close> bytes needs \<open>2^32\<close> blocks, far
  more than 12, but \<open>(uint32_t)((fsize + BS - 1) / BS)\<close> is 0. The adder does not
  return 5: it allocates no data block, writes an inode with \<open>size_bytes = 2^44\<close>
  and returns 0.
\<close>

theorem huge_file_accepted:
  "12 < (length (src_bytes huge_src) + 4095) div 4096 \<and>
   need_blocks_of (of_nat (length (src_bytes huge_src))) = 0 \<and>
   \<not> isl (mkfs_adder_main fresh_img ''big'' huge_src 0 0) \<and>
   db_idxs (projr (mkfs_adder_main fresh_img ''big'' huge_src 0 0)) = [] \<and>
   ino_size_bytes (out_img (projr (mkfs_adder_main fresh_img ''big'' huge_src 0 0)))
     (12288 + 128 * new_ino_idx (projr (mkfs_adder_main fresh_img ''big'' huge_src 0 0)))
     = 17592186044416"
proof -
  obtain r where r: "mkfs_adder_main fresh_img ''big'' huge_src 0 0 = Inr r"
    using fresh_total[OF fresh_img_eq, of huge_src "''big''" 0 0]
    by (auto simp: huge_src_need) (auto simp: huge_src_def)
  have d: "db_idxs r = []"
    using adder_InrD(7)[OF r] by (simp add: huge_src_need)
  then have "db_idxs r = [] \<or> length (src_bytes huge_src) + 4095 < 2 ^ 44" by simp
  from adder_effects(18)[OF fresh_ok r this]
  have "ino_size_bytes (out_img r) (12288 + 128 * new_ino_idx r) = 17592186044416"
    by (simp add: huge_src_def)
  moreover have "need_blocks_of (of_nat (length (src_bytes huge_src))) = 0"
    by (simp add: huge_src_def need_blocks_of_def)
  moreover have "12 < (length (src_bytes huge_src) + 4095) div 4096"
    by (simp add: huge_src_def)
  ultimately show ?thesis using d by (simp add: r)
qed

subsection \<open>The file's bytes\<close>

lemma chunk_Suc: "chunk bytes (Suc i) = chunk (drop 4096 bytes) i"
  by (simp add: chunk_def add.commute)

lemma chunks_concat:
  "n = (length bytes + 4095) div 4096 \<Longrightarrow>
   concat (map (chunk bytes) [0..<n]) = bytes @ replicate (4096 * n - length bytes) 0"
proof (induction n arbitrary: bytes)
  case 0
  then have "length bytes + 4095 < 4096" by (simp add: div_eq_0_iff)
  then have "bytes = []" by simp
  then show ?case by simp
next
  case (Suc n)
  have s: "[0..<Suc n] = 0 # map Suc [0..<n]" by (simp add: upt_conv_Cons map_Suc_upt del: upt_Suc)
  have c: "concat (map (chunk bytes) [0..<Suc n]) = chunk bytes 0 @ concat (map (chunk (drop 4096 bytes)) [0..<n])"
    unfolding s by (simp add: comp_def chunk_Suc)
  show ?case
  proof (cases "length bytes \<le> 4096")
    case True
    then have "n = 0" using Suc.prems by simp
    then show ?thesis using True by (simp add: chunk_def)
  next
    case False
    then have n: "n = (length (drop 4096 bytes) + 4095) div 4096" using Suc.prems by simp
    have l: "4096 * n \<ge> length bytes - 4096" using n by simp
    have "chunk bytes 0 = take 4096 bytes" using False by (simp add: chunk_def)
    then have "concat (map (chunk bytes) [0..<Suc n])
       = take 4096 bytes @ drop 4096 bytes @ replicate (4096 * n - length (drop 4096 bytes)) 0"
      unfolding c using Suc.IH[OF n] by simp
    also have "\<dots> = (take 4096 bytes @ drop 4096 bytes) @
        replicate (4096 * n - length (drop 4096 bytes)) 0"
      by (simp only: append_assoc)
    also have "\<dots> = bytes @ replicate (4096 * Suc n - length bytes) 0"
      using False by (simp add: add.commute)
    finally show ?thesis .
  qed
qed

lemma filter_nonzero_prefix:
  assumes "k \<le> n" "\<And>i. i < k \<Longrightarrow> f i \<noteq> (0::u32)" "\<And>i. k \<le> i \<Longrightarrow> i < n \<Longrightarrow> f i = 0"
  shows "filter (\<lambda>d. d \<noteq> 0) (map f [0..<n]) = map f [0..<k]"
proof -
  have "[0..<n] = [0..<k] @ [k..<n]" using assms(1) by (metis le_add_diff_inverse upt_add_eq_append zero_le)
  then have "filter (\<lambda>d. d \<noteq> 0) (map f [0..<n])
     = filter (\<lambda>d. d \<noteq> 0) (map f [0..<k]) @ filter (\<lambda>d. d \<noteq> 0) (map f [k..<n])" by simp
  also have "filter (\<lambda>d. d \<noteq> 0) (map f [0..<k]) = map f [0..<k]"
    using assms(2) by (simp add: filter_id_conv)
  also have "filter (\<lambda>d. d \<noteq> 0) (map f [k..<n]) = []"
    using assms(3) by (simp add: filter_empty_conv)
  finally show ?thesis by simp
qed

lemma file_content_general:
  assumes ok: "image_ok img" and run: "mkfs_adder_main img fp src t1 t2 = Inr r"
    and len: "length (src_bytes src) + 4095 < 2 ^ 44"
  defines "ino \<equiv> 12288 + 128 * new_ino_idx r"
  defines "need \<equiv> (length (src_bytes src) + 4095) div 4096"
  shows "unat (ino_size_bytes (out_img r) ino) = length (src_bytes src)"
    "direct_blocks (out_img r) ino = src_bytes src @ replicate (4096 * need - length (src_bytes src)) 0"
    "length (db_idxs r) = need"
proof -
  have H: "db_idxs r = [] \<or> length (src_bytes src) + 4095 < 2 ^ 44" using len by simp
  note E = adder_effects[OF ok run H, folded ino_def]
  have "length (src_bytes src) < 2 ^ 64" using len by simp
  then show "unat (ino_size_bytes (out_img r) ino) = length (src_bytes src)"
    by (simp add: E(18) unat_of_nat take_bit_nat_eq_self)
  show ld: "length (db_idxs r) = need"
    using E(11) unat_need_blocks_of[OF len] by (simp add: need_def)
  let ?drs = "unat (sb_data_region_start img)"
  note g = image_ok_geom[OF ok]
  have nz: "ino_direct (out_img r) ino i \<noteq> 0" if "i < length (db_idxs r)" for i
  proof -
    have "unat (ino_direct (out_img r) ino i) \<noteq> 0" using E(19)[OF that] g(1) by simp
    then show ?thesis by (auto simp: unat_eq_0)
  qed
  have f: "filter (\<lambda>d. d \<noteq> 0) (map (ino_direct (out_img r) ino) [0..<12])
      = map (ino_direct (out_img r) ino) [0..<length (db_idxs r)]"
    by (rule filter_nonzero_prefix[OF E(10) nz E(20)])
  have b: "block_of (out_img r) (ino_direct (out_img r) ino i) = chunk (src_bytes src) i"
    if "i < length (db_idxs r)" for i
    using E(19)[OF that] E(21)[OF len] that by (simp add: block_of_def)
  have "direct_blocks (out_img r) ino = concat (map (chunk (src_bytes src)) [0..<length (db_idxs r)])"
    unfolding direct_blocks_def f using b
    by (intro arg_cong[where f = concat]) (simp add: comp_def)
  then show "direct_blocks (out_img r) ino = src_bytes src @ replicate (4096 * need - length (src_bytes src)) 0"
    using chunks_concat[of need "src_bytes src"] ld by (simp add: need_def)
qed

text \<open>
  C5: on every image the builder produces, adding a regular file that needs at most
  12 blocks succeeds; the new inode's \<open>size_bytes\<close> is the file's length, the blocks of
  its direct pointers, concatenated in pointer order and cut at \<open>size_bytes\<close>, are the
  file's bytes, and what follows them up to the end of the last block is zero.
\<close>

theorem file_content_roundtrip:
  assumes "mkfs_builder_main size_kib inodes now_sb now_root = Inr img"
    and "src_exists src" "src_regular src"
    and "(length (src_bytes src) + 4095) div 4096 \<le> 12"
  shows "\<exists>r. mkfs_adder_main img filepath src now_ino now = Inr r \<and>
     unat (ino_size_bytes (out_img r) (unat (4096 * sb_inode_table_start img) + 128 * new_ino_idx r))
       = length (src_bytes src) \<and>
     take (length (src_bytes src))
       (direct_blocks (out_img r) (unat (4096 * sb_inode_table_start img) + 128 * new_ino_idx r))
       = src_bytes src \<and>
     drop (length (src_bytes src))
       (direct_blocks (out_img r) (unat (4096 * sb_inode_table_start img) + 128 * new_ino_idx r))
       = replicate (4096 * ((length (src_bytes src) + 4095) div 4096) - length (src_bytes src)) 0"
proof -
  have len: "length (src_bytes src) + 4095 < 2 ^ 44" using assms(4) by simp
  note ok = builder_image_ok[OF assms(1)]
  have n: "unat (need_blocks_of (of_nat (length (src_bytes src)))) \<le> 12"
    using assms(4) unat_need_blocks_of[OF len] by simp
  obtain r where r: "mkfs_adder_main img filepath src now_ino now = Inr r"
    using fresh_total[OF assms(1-3) n, of filepath now_ino now] len by blast
  note c = file_content_general[OF ok r len]
  show ?thesis
    using r c(1) by (intro exI[of _ r]) (simp add: image_okD(5)[OF ok] c(2))
qed

theorem file_content_roundtrip_witness:
  "mkfs_builder_main 1024 128 0 0 = Inr fresh_img \<and>
   (length (src_bytes small_src) + 4095) div 4096 \<le> 12 \<and>
   (\<exists>r. mkfs_adder_main fresh_img ''a.txt'' small_src 0 0 = Inr r \<and>
     unat (ino_size_bytes (out_img r) (12288 + 128 * new_ino_idx r)) = 1 \<and>
     take 1 (direct_blocks (out_img r) (12288 + 128 * new_ino_idx r)) = [7] \<and>
     drop 1 (direct_blocks (out_img r) (12288 + 128 * new_ino_idx r)) = replicate 4095 0)"
proof -
  have a: "src_exists small_src" "src_regular small_src"
    "(length (src_bytes small_src) + 4095) div 4096 \<le> 12"
    by (simp_all add: small_src_def)
  from file_content_roundtrip[OF fresh_img_eq a, of "''a.txt''" 0 0]
  show ?thesis
    using fresh_img_eq a(3) by (simp add: image_okD(5)[OF fresh_ok]) (simp add: small_src_def)
qed

subsection \<open>Sequences of runs\<close>

lemma allocated_sorted:
  assumes ok: "image_ok img" and run: "mkfs_adder_main img fp src t1 t2 = Inr r"
    and H: "length (src_bytes src) + 4095 < 2 ^ 44"
  shows "sorted_wrt (<) (allocated_blocks r)"
    "\<And>x. x \<in> set (allocated_blocks r) \<Longrightarrow>
        x < unat (sb_data_region_blocks img) \<and> \<not> test_bit img 8192 x"
    "\<And>x y. x \<in> set (allocated_blocks r) \<Longrightarrow> y < unat (sb_data_region_blocks img) \<Longrightarrow>
        \<not> test_bit img 8192 y \<Longrightarrow> y \<notin> set (allocated_blocks r) \<Longrightarrow> x < y"
proof -
  have H': "db_idxs r = [] \<or> length (src_bytes src) + 4095 < 2 ^ 44" using H by simp
  note E = adder_effects[OF ok run H']
  note lim = image_ok_limits[OF ok]
  let ?dbs = "db_idxs r"
  note P = find_free_blocks_props[where m = img and data_bmap = 8192 and need = "length ?dbs",
      folded E(9), unfolded lim]
  have ff: "x < f" if "free_idx r = Some f" "x \<in> set ?dbs" for x f
    using E(12)[OF that(1)] P(5)[of f x] that(2) by simp
  show "sorted_wrt (<) (allocated_blocks r)"
    using P(1) ff by (cases "free_idx r") (auto simp: allocated_blocks_def sorted_wrt_append)
  show "x < unat (sb_data_region_blocks img) \<and> \<not> test_bit img 8192 x"
    if "x \<in> set (allocated_blocks r)" for x
    using that P(4)[of x] E(12)
    by (cases "free_idx r") (auto simp: allocated_blocks_def)
  show "x < y" if "x \<in> set (allocated_blocks r)" "y < unat (sb_data_region_blocks img)"
    "\<not> test_bit img 8192 y" "y \<notin> set (allocated_blocks r)" for x y
  proof (cases "x \<in> set ?dbs")
    case True
    moreover have "y \<notin> set ?dbs" using that(4) by (simp add: allocated_blocks_def)
    ultimately show ?thesis using P(5)[OF that(2,3)] by simp
  next
    case False
    then have f: "free_idx r = Some x" using that(1)
      by (cases "free_idx r") (auto simp: allocated_blocks_def)
    have "y \<noteq> x" "y \<notin> set ?dbs" using that(4) f by (auto simp: allocated_blocks_def)
    moreover have "\<forall>j<x. j \<in> set ?dbs \<or> test_bit img 8192 j" using E(12)[OF f] by simp
    ultimately show ?thesis using that(3) by (metis linorder_neqE_nat)
  qed
qed

lemma add_files_increasing:
  assumes "image_ok img"
    and "\<forall>q \<in> set qs. length (src_bytes (req_src q)) + 4095 < 2 ^ 44"
    and "add_files img qs = Some rs"
  shows "sorted_wrt (<) (map new_ino_idx rs) \<and>
         (\<forall>r \<in> set rs. new_ino_idx r < unat (sb_inode_count img) \<and>
                        \<not> test_bit img 4096 (new_ino_idx r) \<and> image_ok (out_img r)) \<and>
         sorted_wrt (<) (concat (map allocated_blocks rs)) \<and>
         (\<forall>x \<in> set (concat (map allocated_blocks rs)).
            x < unat (sb_data_region_blocks img) \<and> \<not> test_bit img 8192 x)"
  using assms
proof (induction qs arbitrary: img rs)
  case Nil
  then show ?case by simp
next
  case (Cons q qs)
  from Cons.prems(3) obtain r rs' where
    run: "mkfs_adder_main img (req_path q) (req_src q) (req_now_ino q) (req_now q) = Inr r"
    and rest: "add_files (out_img r) qs = Some rs'" and rs: "rs = r # rs'"
    by (auto split: sum.splits option.splits)
  have H: "length (src_bytes (req_src q)) + 4095 < 2 ^ 44" using Cons.prems(2) by simp
  have H': "db_idxs r = [] \<or> length (src_bytes (req_src q)) + 4095 < 2 ^ 44" using H by simp
  note ok = Cons.prems(1)
  note E = adder_effects[OF ok run H']
  note AL = allocated_sorted[OF ok run H]
  note d = image_okD[OF ok]
  have sb: "sb_inode_count (out_img r) = sb_inode_count img"
    "sb_data_region_blocks (out_img r) = sb_data_region_blocks img"
    using same_outside_sb(5,11)[OF E(3)] by auto
  have "\<forall>q \<in> set qs. length (src_bytes (req_src q)) + 4095 < 2 ^ 44" using Cons.prems(2) by simp
  from Cons.IH[OF E(2) this rest]
  have ih: "sorted_wrt (<) (map new_ino_idx rs')"
    "\<And>r'. r' \<in> set rs' \<Longrightarrow> new_ino_idx r' < unat (sb_inode_count img) \<and>
        \<not> test_bit (out_img r) 4096 (new_ino_idx r') \<and> image_ok (out_img r')"
    "sorted_wrt (<) (concat (map allocated_blocks rs'))"
    "\<And>x. x \<in> set (concat (map allocated_blocks rs')) \<Longrightarrow>
        x < unat (sb_data_region_blocks img) \<and> \<not> test_bit (out_img r) 8192 x"
    unfolding sb by blast+
  have ino: "new_ino_idx r < new_ino_idx r' \<and> \<not> test_bit img 4096 (new_ino_idx r')"
    if "r' \<in> set rs'" for r'
  proof -
    note i = ih(2)[OF that]
    have j: "new_ino_idx r' < 32768" using i d(11) by simp
    from E(8)[OF j] i have "new_ino_idx r' \<noteq> new_ino_idx r" "\<not> test_bit img 4096 (new_ino_idx r')"
      by auto
    moreover from this E(7)[of "new_ino_idx r'"] have "\<not> new_ino_idx r' < new_ino_idx r" by auto
    ultimately show ?thesis by simp
  qed
  have blk: "(\<forall>x \<in> set (allocated_blocks r). x < y) \<and> \<not> test_bit img 8192 y"
    if "y \<in> set (concat (map allocated_blocks rs'))" for y
  proof -
    note i = ih(4)[OF that]
    have j: "y < 32768" using i d(12) by simp
    from E(13)[OF j] i have n: "y \<notin> set (allocated_blocks r)" "\<not> test_bit img 8192 y" by auto
    then show ?thesis using AL(3)[of _ y] i by auto
  qed
  have 1: "sorted_wrt (<) (map new_ino_idx rs)" using ih(1) ino by (auto simp: rs)
  have 2: "\<forall>r \<in> set rs. new_ino_idx r < unat (sb_inode_count img) \<and>
                        \<not> test_bit img 4096 (new_ino_idx r) \<and> image_ok (out_img r)"
    using E(2,5,6) ih(2) ino by (auto simp: rs)
  have 3: "sorted_wrt (<) (concat (map allocated_blocks rs))"
    using AL(1) ih(3) blk by (simp add: rs sorted_wrt_append)
  have 4: "\<forall>x \<in> set (concat (map allocated_blocks rs)).
            x < unat (sb_data_region_blocks img) \<and> \<not> test_bit img 8192 x"
  proof
    fix x assume "x \<in> set (concat (map allocated_blocks rs))"
    then consider "x \<in> set (allocated_blocks r)" | "x \<in> set (concat (map allocated_blocks rs'))"
      by (auto simp: rs)
    then show "x < unat (sb_data_region_blocks img) \<and> \<not> test_bit img 8192 x"
      using AL(2) ih(4) blk by cases auto
  qed
  show ?case using 1 2 3 4 by blast
qed

lemma prefix_of_sorted:
  fixes xs ys :: "nat list"
  assumes "sorted_wrt (<) xs" "sorted_wrt (<) ys" "set xs \<subseteq> set ys"
    and "\<forall>y \<in> set ys. y \<notin> set xs \<longrightarrow> (\<forall>x \<in> set xs. x < y)"
  shows "xs = take (length xs) ys"
  using assms
proof (induction xs arbitrary: ys)
  case Nil
  then show ?case by simp
next
  case (Cons x xs)
  from Cons.prems(3) obtain y ys' where ys: "ys = y # ys'" by (cases ys) auto
  have xy: "x = y"
  proof (rule ccontr)
    assume ne: "x \<noteq> y"
    then have "x \<in> set ys'" using Cons.prems(3) ys by auto
    then have lt: "y < x" using Cons.prems(2) ys by simp
    have "y \<notin> set (x # xs)" using Cons.prems(1) lt by auto
    then have "x < y" using Cons.prems(4) ys by simp
    then show False using lt by simp
  qed
  have 1: "sorted_wrt (<) xs" "sorted_wrt (<) ys'" using Cons.prems(1,2) ys by simp_all
  have 2: "set xs \<subseteq> set ys'"
  proof
    fix z assume z: "z \<in> set xs"
    then have "x < z" using Cons.prems(1) by simp
    moreover have "z \<in> set ys" using z Cons.prems(3) by auto
    ultimately show "z \<in> set ys'" using ys xy by auto
  qed
  have 3: "\<forall>y' \<in> set ys'. y' \<notin> set xs \<longrightarrow> (\<forall>x' \<in> set xs. x' < y')"
  proof (intro ballI impI)
    fix y' x' assume a: "y' \<in> set ys'" "y' \<notin> set xs" "x' \<in> set xs"
    have "y < y'" using Cons.prems(2) ys a(1) by simp
    then have "y' \<notin> set (x # xs)" using a(2) xy by simp
    moreover have "y' \<in> set ys" using a(1) ys by simp
    ultimately show "x' < y'" using Cons.prems(4) a(3) by simp
  qed
  from Cons.IH[OF 1 2 3] show ?case by (simp add: ys xy)
qed

lemma run_first_fit:
  assumes ok: "image_ok img" and run: "mkfs_adder_main img fp src t1 t2 = Inr r"
    and H: "length (src_bytes src) + 4095 < 2 ^ 44"
  shows "allocated_blocks r = take (length (allocated_blocks r))
           (filter (\<lambda>j. \<not> test_bit img 8192 j) [0..<unat (sb_data_region_blocks img)])"
proof (rule prefix_of_sorted)
  note A = allocated_sorted[OF ok run H]
  show "sorted_wrt (<) (allocated_blocks r)" by (rule A(1))
  show "sorted_wrt (<) (filter (\<lambda>j. \<not> test_bit img 8192 j) [0..<unat (sb_data_region_blocks img)])"
    by (rule sorted_filter_upt)
  show "set (allocated_blocks r)
      \<subseteq> set (filter (\<lambda>j. \<not> test_bit img 8192 j) [0..<unat (sb_data_region_blocks img)])"
    using A(2) by auto
  show "\<forall>y \<in> set (filter (\<lambda>j. \<not> test_bit img 8192 j) [0..<unat (sb_data_region_blocks img)]).
          y \<notin> set (allocated_blocks r) \<longrightarrow> (\<forall>x \<in> set (allocated_blocks r). x < y)"
    using A(3) by auto
qed

lemma add_files_first_fit:
  assumes "image_ok img"
    and "\<forall>q \<in> set qs. length (src_bytes (req_src q)) + 4095 < 2 ^ 44"
    and "add_files img qs = Some rs"
  shows "list_all2 (\<lambda>m r. image_ok m \<and>
           \<not> test_bit m 4096 (new_ino_idx r) \<and> (\<forall>j<new_ino_idx r. test_bit m 4096 j) \<and>
           allocated_blocks r = take (length (allocated_blocks r))
             (filter (\<lambda>j. \<not> test_bit m 8192 j) [0..<unat (sb_data_region_blocks m)]) \<and>
           (\<forall>j<32768. (test_bit m 4096 j \<longrightarrow> test_bit (out_img r) 4096 j) \<and>
                      (test_bit m 8192 j \<longrightarrow> test_bit (out_img r) 8192 j)))
         (inputs img rs) rs"
  using assms
proof (induction qs arbitrary: img rs)
  case Nil
  then show ?case by simp
next
  case (Cons q qs)
  from Cons.prems(3) obtain r rs' where
    run: "mkfs_adder_main img (req_path q) (req_src q) (req_now_ino q) (req_now q) = Inr r"
    and rest: "add_files (out_img r) qs = Some rs'" and rs: "rs = r # rs'"
    by (auto split: sum.splits option.splits)
  have H: "length (src_bytes (req_src q)) + 4095 < 2 ^ 44" using Cons.prems(2) by simp
  have H': "db_idxs r = [] \<or> length (src_bytes (req_src q)) + 4095 < 2 ^ 44" using H by simp
  note ok = Cons.prems(1)
  note E = adder_effects[OF ok run H']
  have "\<forall>q \<in> set qs. length (src_bytes (req_src q)) + 4095 < 2 ^ 44" using Cons.prems(2) by simp
  note ih = Cons.IH[OF E(2) this rest]
  have 1: "\<forall>j<new_ino_idx r. test_bit img 4096 j" using E(7) by simp
  have 2: "\<forall>j<32768. (test_bit img 4096 j \<longrightarrow> test_bit (out_img r) 4096 j) \<and>
                      (test_bit img 8192 j \<longrightarrow> test_bit (out_img r) 8192 j)"
    using E(8,13) by simp
  show ?case
    unfolding rs inputs.simps list_all2_Cons
    using ok E(6) 1 2 run_first_fit[OF ok run H] ih by (intro conjI) assumption+
qed

subsection \<open>Filling the root directory of the fresh image\<close>

lemma dirfillD:
  assumes "dirfill img k b"
  shows "image_ok img" "unat (sb_inode_count img) = 128"
    "unat (sb_data_region_start img) = 7" "unat (sb_data_region_blocks img) = 249"
    "ino_direct img 12288 0 = 7"
    "\<And>d. 1 \<le> d \<Longrightarrow> d < 12 \<Longrightarrow> ino_direct img 12288 d = 0"
    "\<And>i. i < 64 \<Longrightarrow> de_inode_no img (28672 + i * 64) = 0 \<longleftrightarrow> k + 2 \<le> i"
    "\<And>j. j < 128 \<Longrightarrow> test_bit img 4096 j \<longleftrightarrow> j \<le> k"
    "\<And>j. j < 249 \<Longrightarrow> test_bit img 8192 j \<longleftrightarrow> j \<le> b"
  using assms by (simp_all add: dirfill_def)

lemma dirfill_fresh: "dirfill fresh_img 0 0"
proof -
  note g = fresh_geometry
  note r = builder_root_fields[OF fresh_img_eq]
  note b = builder_root_block[OF fresh_img_eq, unfolded g]
  have d0: "ino_direct fresh_img 12288 0 = 7"
    using r(5) g(3) by (simp add: word_unat_eq_iff)
  have e: "de_inode_no fresh_img (28672 + i * 64) = 0 \<longleftrightarrow> 2 \<le> i" if "i < 64" for i
  proof -
    consider "i = 0" | "i = 1" | "2 \<le> i" by linarith
    then show ?thesis using b(1,4) b(7)[of i] that by cases simp_all
  qed
  show ?thesis
    unfolding dirfill_def
    using fresh_ok g(2,3,4) d0 r(7) e builder_bitmaps[OF fresh_img_eq] by auto
qed

lemma filter_upt_above:
  assumes "\<forall>j<n. P j \<longleftrightarrow> b < j" "b < n"
  shows "filter P [0..<n] = [Suc b..<n]"
proof -
  have a: "[0..<n] = [0..<Suc b] @ [Suc b..<n]"
    using upt_add_eq_append[of 0 "Suc b" "n - Suc b"] assms(2) by (simp del: upt_Suc)
  have b: "filter P [0..<Suc b] = []"
    using assms by (auto simp del: upt_Suc simp: filter_empty_conv)
  have c: "filter P [Suc b..<n] = [Suc b..<n]"
    using assms(1) by (auto simp del: upt_Suc simp: filter_id_conv)
  show ?thesis by (subst a) (simp only: filter_append b c append_Nil)
qed

lemma dirfill_free:
  assumes "dirfill img k b" "k < 127" "b < 248"
  shows "248 - b \<le> card {j. j < unat (sb_data_region_blocks img) \<and> \<not> test_bit img 8192 j}"
    "\<exists>j<unat (sb_inode_count img). \<not> test_bit img 4096 j"
    "\<exists>d<12. ino_direct img 12288 d = 0"
proof -
  note D = dirfillD[OF assms(1)]
  have "{Suc b..<249} \<subseteq> {j. j < 249 \<and> \<not> test_bit img 8192 j}" using D(9) by auto
  then have "card {Suc b..<249} \<le> card {j. j < 249 \<and> \<not> test_bit img 8192 j}"
    by (intro card_mono) simp_all
  then show "248 - b \<le> card {j. j < unat (sb_data_region_blocks img) \<and> \<not> test_bit img 8192 j}"
    by (simp add: D(4))
  show "\<exists>j<unat (sb_inode_count img). \<not> test_bit img 4096 j"
    using D(8)[of "k + 1"] assms(2) by (intro exI[of _ "k + 1"]) (simp add: D(2))
  show "\<exists>d<12. ino_direct img 12288 d = 0" using D(6)[of 1] by (intro exI[of _ 1]) simp
qed

lemma dirfill_run_src:
  fixes src :: source
  defines "need \<equiv> unat (need_blocks_of (of_nat (length (src_bytes src))))"
  assumes "dirfill img k b" "k < 127" and s: "src_exists src" "src_regular src"
    and n: "need \<le> 12"
    and H: "length (src_bytes src) + 4095 < 2 ^ 44"
    and bn: "b + need < 248"
  shows "\<exists>r. mkfs_adder_main img fp src t1 t2 = Inr r \<and>
           db_idxs r = [Suc b..<Suc b + need] \<and> new_ino_idx r = k + 1"
proof -
  note D = dirfillD[OF assms(2)]
  have b: "b < 248" using bn by simp
  note F = dirfill_free[OF assms(2,3) b]
  have H': "need = 0 \<or> length (src_bytes src) + 4095 < 2 ^ 44" using H by simp
  have fb: "need < card {j. j < unat (sb_data_region_blocks img) \<and> \<not> test_bit img 8192 j}"
    using F(1) bn by simp
  obtain r where run: "mkfs_adder_main img fp src t1 t2 = Inr r"
    using adder_total[OF D(1) s n[unfolded need_def] H'[unfolded need_def] F(2) fb[unfolded need_def] F(3),
        of fp t1 t2] by blast
  have H'': "db_idxs r = [] \<or> length (src_bytes src) + 4095 < 2 ^ 44" using H by simp
  note E = adder_effects[OF D(1) run H'']
  have i: "new_ino_idx r < 128" using E(5) D(2) by simp
  have "k < new_ino_idx r" using E(6) D(8)[OF i] by simp
  moreover have "\<not> k + 1 < new_ino_idx r"
  proof
    assume a: "k + 1 < new_ino_idx r"
    then have "test_bit img 4096 (k + 1)" by (rule E(7))
    then show False using D(8)[of "k + 1"] a i by simp
  qed
  ultimately have idx: "new_ino_idx r = k + 1" by simp
  have fl: "filter (\<lambda>j. \<not> test_bit img 8192 j) [0..<249] = [Suc b..<249]"
    using D(9) b by (intro filter_upt_above) auto
  have "db_idxs r = take need (filter (\<lambda>j. \<not> test_bit img 8192 j) [0..<249])"
    using E(9) E(11) by (simp add: find_free_blocks_def image_ok_limits(2)[OF D(1)] D(4) need_def)
  also have "\<dots> = [Suc b..<Suc b + need]" unfolding fl using bn by (simp add: take_upt)
  finally show ?thesis using run idx by simp
qed

lemma dirfill_slot:
  assumes "dirfill img k b"
  shows "k < 62 \<Longrightarrow> find_slot img 12288 [0..<12] = Some (28672 + (k + 2) * 64)"
    "62 \<le> k \<Longrightarrow> find_slot img 12288 [0..<12] = None"
proof -
  note D = dirfillD[OF assms(1)]
  have u: "[0..<12] = 0 # 1 # [2..<12]" by (simp add: upt_conv_Cons)
  have a: "unat (4096 * (7::u32)) = 28672" by simp
  show "find_slot img 12288 [0..<12] = Some (28672 + (k + 2) * 64)" if "k < 62"
  proof -
    have p: "de_inode_no img (28672 + (k + 2) * 64) = 0" using D(7)[of "k + 2"] that by simp
    have q: "\<forall>j<k + 2. de_inode_no img (28672 + j * 64) \<noteq> 0" using D(7) that by simp
    have "k + 2 < 64" using that by simp
    then have "find (\<lambda>i. de_inode_no img (28672 + i * 64) = 0) [0..<64] = Some (k + 2)"
      unfolding find_upt_Some using p q by blast
    then show ?thesis unfolding u by (simp add: D(5) a)
  qed
  show "find_slot img 12288 [0..<12] = None" if "62 \<le> k"
  proof -
    have "find (\<lambda>i. de_inode_no img (28672 + i * 64) = 0) [0..<64] = None"
      unfolding find_upt_None using D(7) that by simp
    then show ?thesis unfolding u using D(6)[of 1] by (simp add: D(5) a)
  qed
qed

lemma dirfill_step_src:
  fixes src :: source
  defines "need \<equiv> unat (need_blocks_of (of_nat (length (src_bytes src))))"
  assumes "dirfill img k b" "k < 62" and s: "src_exists src" "src_regular src"
    and n: "need \<le> 12"
    and H: "length (src_bytes src) + 4095 < 2 ^ 44"
    and bn: "b + need < 248"
  shows "\<exists>r. mkfs_adder_main img fp src t1 t2 = Inr r \<and> db_idxs r = [Suc b..<Suc b + need] \<and>
           new_ino_idx r = k + 1 \<and> free_idx r = None \<and> dirfill (out_img r) (k + 1) (b + need)"
proof -
  note D = dirfillD[OF assms(2)]
  have k: "k < 127" using assms(3) by simp
  obtain r where run: "mkfs_adder_main img fp src t1 t2 = Inr r"
    and dbs: "db_idxs r = [Suc b..<Suc b + need]" and idx: "new_ino_idx r = k + 1"
    using dirfill_run_src[OF assms(2) k s n[unfolded need_def] H bn[unfolded need_def], of fp t1 t2]
    unfolding need_def by blast
  have H': "db_idxs r = [] \<or> length (src_bytes src) + 4095 < 2 ^ 44" using H by simp
  note E = adder_effects[OF D(1) run H', unfolded idx D(3)]
  note S = E(24)[OF dirfill_slot(1)[OF assms(2,3)]]
  have fr: "free_idx r = None" using S by simp
  have al: "allocated_blocks r = [Suc b..<Suc b + need]" by (simp add: allocated_blocks_def dbs fr)
  have sb: "sb_inode_count (out_img r) = sb_inode_count img"
    "sb_data_region_start (out_img r) = sb_data_region_start img"
    "sb_data_region_blocks (out_img r) = sb_data_region_blocks img"
    using same_outside_sb(5,10,11)[OF E(3)] by auto
  have dir: "ino_direct (out_img r) 12288 d = ino_direct img 12288 d" if "d < 12" for d
    using E(23)[OF that] fr by simp
  have ne: "de_inode_no (out_img r) (28672 + (k + 2) * 64) \<noteq> 0"
  proof -
    have "unat (of_nat (k + 1) + 1 :: u32) = k + 2"
      using assms(3) by (simp add: unat_word_ariths unat_of_nat)
    then have "(of_nat (k + 1) + 1 :: u32) \<noteq> 0" by (metis add_2_eq_Suc' nat.distinct(1) unat_0)
    then show ?thesis using S by simp
  qed
  have d1: "1 \<le> db_idxs r ! j" if "j < length (db_idxs r)" for j
    using that unfolding dbs by (simp del: upt_Suc)
  have old: "de_inode_no (out_img r) (28672 + i * 64) = de_inode_no img (28672 + i * 64)"
    if "i < 64" "i \<noteq> k + 2" for i
    unfolding de_inode_no_def
  proof (rule same_outside_rd(3)[OF conjunct2[OF conjunct2[OF S]]])
    have c: "i < k + 2 \<or> k + 2 < i" using that(2) by linarith
    have "x \<notin> {4096..<12416} \<union> {12288 + 128 * (k + 1)..<12288 + 128 * (k + 1) + 128} \<union>
       (\<Union>j\<in>{..<length (db_idxs r)}.
          {4096 * (7 + db_idxs r ! j)..<4096 * (7 + db_idxs r ! j) + 4096}) \<union>
       {28672 + (k + 2) * 64..<28672 + (k + 2) * 64 + 64}"
      if x: "x \<in> {28672 + i * 64..<28672 + i * 64 + 4}" for x
    proof -
      have a: "28672 \<le> x" "x < 32768" using x \<open>i < 64\<close> by simp_all
      have 1: "x \<notin> {4096..<12416}" "x \<notin> {12288 + 128 * (k + 1)..<12288 + 128 * (k + 1) + 128}"
        using a(1) assms(3) by simp_all
      have 2: "x \<notin> {4096 * (7 + db_idxs r ! j)..<4096 * (7 + db_idxs r ! j) + 4096}"
        if "j < length (db_idxs r)" for j
        using d1[OF that] a(2) by simp
      have 3: "x \<notin> {28672 + (k + 2) * 64..<28672 + (k + 2) * 64 + 64}"
        using x c by auto
      show ?thesis using 1 2 3 by blast
    qed
    then show "{28672 + i * 64..<28672 + i * 64 + 4} \<inter>
      ({4096..<12416} \<union> {12288 + 128 * (k + 1)..<12288 + 128 * (k + 1) + 128} \<union>
       (\<Union>j\<in>{..<length (db_idxs r)}.
          {4096 * (7 + db_idxs r ! j)..<4096 * (7 + db_idxs r ! j) + 4096}) \<union>
       {28672 + (k + 2) * 64..<28672 + (k + 2) * 64 + 64}) = {}"
      unfolding disjoint_iff by blast
  qed
  have ent: "de_inode_no (out_img r) (28672 + i * 64) = 0 \<longleftrightarrow> k + 1 + 2 \<le> i" if "i < 64" for i
  proof (cases "i = k + 2")
    case True
    then show ?thesis using ne by simp
  next
    case False
    then show ?thesis using old[OF that False] D(7)[OF that] by auto
  qed
  have ib: "test_bit (out_img r) 4096 j \<longleftrightarrow> j \<le> k + 1" if "j < 128" for j
    using E(8)[of j] D(8)[OF that] that by auto
  have db: "test_bit (out_img r) 8192 j \<longleftrightarrow> j \<le> b + need" if "j < 249" for j
    using E(13)[of j] D(9)[OF that] that by (auto simp: al)
  have "dirfill (out_img r) (k + 1) (b + need)"
    unfolding dirfill_def sb using E(2) D(2-6) dir ent ib db by simp
  then show ?thesis using run dbs idx fr by simp
qed

lemma empty_src_ok:
  "src_exists empty_src" "src_regular empty_src"
  "unat (need_blocks_of (of_nat (length (src_bytes empty_src)))) \<le> 12"
  "length (src_bytes empty_src) + 4095 < 2 ^ 44"
  by (simp_all add: empty_src_need) (simp_all add: empty_src_def)

lemma small_src_ok:
  "src_exists small_src" "src_regular small_src"
  "unat (need_blocks_of (of_nat (length (src_bytes small_src)))) \<le> 12"
  "length (src_bytes small_src) + 4095 < 2 ^ 44"
  by (simp_all add: small_src_need) (simp_all add: small_src_def)

lemma dirfill_step:
  assumes "dirfill img k b" "k < 62" "b < 248"
  shows "\<exists>r. mkfs_adder_main img fp empty_src t1 t2 = Inr r \<and> db_idxs r = [] \<and>
           new_ino_idx r = k + 1 \<and> free_idx r = None \<and> dirfill (out_img r) (k + 1) b"
  using dirfill_step_src[OF assms(1,2) empty_src_ok, of fp t1 t2] assms(3)
  by (simp add: empty_src_need)

lemma dirfill_step_small:
  assumes "dirfill img k b" "k < 62" "b < 247"
  shows "\<exists>r. mkfs_adder_main img fp small_src t1 t2 = Inr r \<and> db_idxs r = [Suc b] \<and>
           new_ino_idx r = k + 1 \<and> free_idx r = None \<and> dirfill (out_img r) (k + 1) (b + 1)"
  using dirfill_step_src[OF assms(1,2) small_src_ok, of fp t1 t2] assms(3)
  by (simp add: small_src_need)




section \<open>Claims about sequences of runs and about empty files\<close>

text \<open>
  C8: starting from an image the builder produced, in every sequence of successful
  runs of the adder (each on the image the previous one wrote, each source below
  \<open>2^44 - 4095\<close> bytes) allocation is first-fit: each run takes the lowest clear bit of
  the inode bitmap of the image it reads, and the data blocks it takes (for the file,
  then for an extension of the root directory) are the first clear bits of that
  image's data bitmap, in ascending order; no run clears a bit of either bitmap.
  Hence the inode indices allocated are strictly increasing, the data-block indices
  allocated, in allocation order, are strictly increasing, neither ever is 0, and bit
  0 of both bitmaps stays set in every image written.
\<close>

theorem first_fit_increasing:
  assumes "mkfs_builder_main size_kib inodes now_sb now_root = Inr img"
    and "\<forall>q \<in> set qs. length (src_bytes (req_src q)) + 4095 < 2 ^ 44"
    and "add_files img qs = Some rs"
  shows "sorted_wrt (<) (map new_ino_idx rs) \<and>
         sorted_wrt (<) (concat (map allocated_blocks rs)) \<and>
         0 \<notin> set (map new_ino_idx rs) \<and>
         0 \<notin> set (concat (map allocated_blocks rs)) \<and>
         (\<forall>r \<in> set rs. test_bit (out_img r) (unat (4096 * sb_inode_bitmap_start img)) 0 \<and>
                        test_bit (out_img r) (unat (4096 * sb_data_bitmap_start img)) 0) \<and>
         list_all2 (\<lambda>m r.
             \<not> test_bit m (unat (4096 * sb_inode_bitmap_start m)) (new_ino_idx r) \<and>
             (\<forall>j<new_ino_idx r. test_bit m (unat (4096 * sb_inode_bitmap_start m)) j) \<and>
             allocated_blocks r = take (length (allocated_blocks r))
               (filter (\<lambda>j. \<not> test_bit m (unat (4096 * sb_data_bitmap_start m)) j)
                  [0..<unat (sb_data_region_blocks m)]) \<and>
             (\<forall>j<32768.
                (test_bit m (unat (4096 * sb_inode_bitmap_start m)) j \<longrightarrow>
                   test_bit (out_img r) (unat (4096 * sb_inode_bitmap_start m)) j) \<and>
                (test_bit m (unat (4096 * sb_data_bitmap_start m)) j \<longrightarrow>
                   test_bit (out_img r) (unat (4096 * sb_data_bitmap_start m)) j)))
           (inputs img rs) rs"
proof -
  note ok = builder_image_ok[OF assms(1)]
  note d = image_okD[OF ok]
  note A = add_files_increasing[OF ok assms(2,3)]
  have 1: "0 \<notin> set (map new_ino_idx rs)" using A d(13) by auto
  have 2: "0 \<notin> set (concat (map allocated_blocks rs))"
  proof
    assume "0 \<in> set (concat (map allocated_blocks rs))"
    then have "\<not> test_bit img 8192 0" using A by blast
    then show False using d(14) by simp
  qed
  have 3: "\<forall>r \<in> set rs. test_bit (out_img r) (unat (4096 * sb_inode_bitmap_start img)) 0 \<and>
                        test_bit (out_img r) (unat (4096 * sb_data_bitmap_start img)) 0"
    using A image_okD(13,14) by (auto simp: d(3,4))
  have 4: "list_all2 (\<lambda>m r.
             \<not> test_bit m (unat (4096 * sb_inode_bitmap_start m)) (new_ino_idx r) \<and>
             (\<forall>j<new_ino_idx r. test_bit m (unat (4096 * sb_inode_bitmap_start m)) j) \<and>
             allocated_blocks r = take (length (allocated_blocks r))
               (filter (\<lambda>j. \<not> test_bit m (unat (4096 * sb_data_bitmap_start m)) j)
                  [0..<unat (sb_data_region_blocks m)]) \<and>
             (\<forall>j<32768.
                (test_bit m (unat (4096 * sb_inode_bitmap_start m)) j \<longrightarrow>
                   test_bit (out_img r) (unat (4096 * sb_inode_bitmap_start m)) j) \<and>
                (test_bit m (unat (4096 * sb_data_bitmap_start m)) j \<longrightarrow>
                   test_bit (out_img r) (unat (4096 * sb_data_bitmap_start m)) j)))
           (inputs img rs) rs"
    by (rule list_all2_mono[OF add_files_first_fit[OF ok assms(2,3)]])
       (simp add: image_okD(3,4))
  show ?thesis using A 1 2 3 4 by blast
qed

theorem first_fit_increasing_witness:
  "mkfs_builder_main 1024 128 0 0 = Inr fresh_img \<and>
   (\<exists>rs. add_files fresh_img [small_req, small_req] = Some rs \<and>
     map new_ino_idx rs = [1, 2] \<and> map allocated_blocks rs = [[1], [2]] \<and>
     sorted_wrt (<) (map new_ino_idx rs) \<and>
     sorted_wrt (<) (concat (map allocated_blocks rs)) \<and>
     0 \<notin> set (map new_ino_idx rs) \<and>
     0 \<notin> set (concat (map allocated_blocks rs)) \<and>
     (\<forall>r \<in> set rs. test_bit (out_img r) (unat (4096 * sb_inode_bitmap_start fresh_img)) 0 \<and>
                    test_bit (out_img r) (unat (4096 * sb_data_bitmap_start fresh_img)) 0) \<and>
     list_all2 (\<lambda>m r.
         \<not> test_bit m (unat (4096 * sb_inode_bitmap_start m)) (new_ino_idx r) \<and>
         (\<forall>j<new_ino_idx r. test_bit m (unat (4096 * sb_inode_bitmap_start m)) j) \<and>
         allocated_blocks r = take (length (allocated_blocks r))
           (filter (\<lambda>j. \<not> test_bit m (unat (4096 * sb_data_bitmap_start m)) j)
              [0..<unat (sb_data_region_blocks m)]) \<and>
         (\<forall>j<32768.
            (test_bit m (unat (4096 * sb_inode_bitmap_start m)) j \<longrightarrow>
               test_bit (out_img r) (unat (4096 * sb_inode_bitmap_start m)) j) \<and>
            (test_bit m (unat (4096 * sb_data_bitmap_start m)) j \<longrightarrow>
               test_bit (out_img r) (unat (4096 * sb_data_bitmap_start m)) j)))
       (inputs fresh_img rs) rs)"
proof -
  obtain r1 where r1: "mkfs_adder_main fresh_img ''a.txt'' small_src 0 0 = Inr r1"
    "db_idxs r1 = [Suc 0]" "new_ino_idx r1 = 0 + 1" "free_idx r1 = None"
    "dirfill (out_img r1) (0 + 1) (0 + 1)"
    using dirfill_step_small[OF dirfill_fresh, of "''a.txt''" 0 0] by auto
  obtain r2 where r2: "mkfs_adder_main (out_img r1) ''a.txt'' small_src 0 0 = Inr r2"
    "db_idxs r2 = [Suc (0 + 1)]" "new_ino_idx r2 = 0 + 1 + 1" "free_idx r2 = None"
    using dirfill_step_small[OF r1(5), of "''a.txt''" 0 0] by auto
  have a: "add_files fresh_img [small_req, small_req] = Some [r1, r2]"
    using r1(1) r2(1) by (simp add: small_req_def)
  have h: "\<forall>q \<in> set [small_req, small_req]. length (src_bytes (req_src q)) + 4095 < 2 ^ 44"
    by (simp add: small_req_def small_src_def)
  have v: "map new_ino_idx [r1, r2] = [1, 2]" "map allocated_blocks [r1, r2] = [[1], [2]]"
    by (simp_all add: allocated_blocks_def r1 r2)
  from first_fit_increasing[OF fresh_img_eq h a] fresh_img_eq a v
  show ?thesis
    by (intro conjI exI[of _ "[r1, r2]"]) (elim conjE, assumption)+
qed



text \<open>
  The conditions under which the adder succeeds are needed: a run that returns 0 found
  a clear inode bit, and either a free entry in a block of the root directory or a
  zero direct pointer of the root and a clear data bit.
\<close>

lemma adder_success_needs:
  assumes ok: "image_ok img" and run: "mkfs_adder_main img fp src t1 t2 = Inr r"
    and H: "db_idxs r = [] \<or> length (src_bytes src) + 4095 < 2 ^ 44"
  shows "\<exists>j<unat (sb_inode_count img). \<not> test_bit img 4096 j"
    and "find_slot img 12288 [0..<12] \<noteq> None \<or>
         ((\<exists>d<12. ino_direct img 12288 d = 0) \<and>
          (\<exists>j<unat (sb_data_region_blocks img). \<not> test_bit img 8192 j))"
proof -
  note E = adder_effects[OF ok run H]
  show "\<exists>j<unat (sb_inode_count img). \<not> test_bit img 4096 j"
    using E(5,6) by blast
  show "find_slot img 12288 [0..<12] \<noteq> None \<or>
         ((\<exists>d<12. ino_direct img 12288 d = 0) \<and>
          (\<exists>j<unat (sb_data_region_blocks img). \<not> test_bit img 8192 j))"
  proof (cases "find_slot img 12288 [0..<12]")
    case None
    then obtain f where f: "free_idx r = Some f" using E(25) by blast
    have "\<exists>d<12. ino_direct img 12288 d = 0" using E(27)[OF f] by blast
    moreover have "\<exists>j<unat (sb_data_region_blocks img). \<not> test_bit img 8192 j"
      using E(12)[OF f] by blast
    ultimately show ?thesis by simp
  qed simp
qed

lemma empty_file_no_inode:
  assumes "image_ok img" "src_exists src" "src_regular src" "src_bytes src = []"
    and "\<not> (\<exists>j<unat (sb_inode_count img). \<not> test_bit img 4096 j)"
  shows "mkfs_adder_main img fp src t1 t2 = Inl (NoFreeInodes, img)"
proof -
  note d = image_okD[OF assms(1)]
  have "find_free_inode img (unat (4096 * sb_inode_bitmap_start img)) = None"
    using assms(5) by (simp add: find_free_inode_def find_upt_None image_ok_limits[OF assms(1)] d(3))
  moreover have "need_blocks_of (of_nat (length (src_bytes src))) \<le> 12"
    by (simp add: assms(4) need_blocks_of_def)
  ultimately show ?thesis by (intro adder_no_inode[OF d(1) assms(2,3)])
qed



section \<open>Inode numbering\<close>

lemma aligned_apart:
  "a mod 64 = 0 \<Longrightarrow> e mod 64 = 0 \<Longrightarrow> a \<noteq> e \<Longrightarrow> a + 64 \<le> e \<or> e + 64 \<le> (a::nat)"
  by presburger

lemma numbering_okD:
  assumes "numbering_ok img"
  shows "sb_root_inode img = 1" "test_bit img 4096 0"
    "\<And>d i. d < 12 \<Longrightarrow> i < 64 \<Longrightarrow> ino_direct img 12288 d \<noteq> 0 \<Longrightarrow>
       de_inode_no img (root_entry img d i) \<noteq> 0 \<Longrightarrow>
       unat (de_inode_no img (root_entry img d i)) \<le> unat (sb_inode_count img) \<and>
       test_bit img 4096 (unat (de_inode_no img (root_entry img d i)) - 1)"
  using assms by (auto simp: numbering_ok_def Let_def unat_gt_0)

lemma numbering_okI:
  assumes "sb_root_inode img = 1" "test_bit img 4096 0"
    "\<And>d i. d < 12 \<Longrightarrow> i < 64 \<Longrightarrow> ino_direct img 12288 d \<noteq> 0 \<Longrightarrow>
       de_inode_no img (root_entry img d i) \<noteq> 0 \<Longrightarrow>
       unat (de_inode_no img (root_entry img d i)) \<le> unat (sb_inode_count img) \<and>
       test_bit img 4096 (unat (de_inode_no img (root_entry img d i)) - 1)"
  shows "numbering_ok img"
  using assms by (auto simp: numbering_ok_def Let_def unat_gt_0)

lemma builder_numbering:
  assumes b: "mkfs_builder_main s n t1 t2 = Inr img"
  shows "numbering_ok img"
    "de_inode_no img (root_entry img 0 0) = 1" "de_inode_no img (root_entry img 0 1) = 1"
proof -
  note ok = builder_image_ok[OF b]
  note d = image_okD[OF ok]
  note r = builder_root_fields[OF b]
  note e = builder_root_block[OF b]
  have re: "root_entry img 0 i = 4096 * unat (sb_data_region_start img) + i * 64" for i
    by (simp add: root_entry_def r(6))
  show "de_inode_no img (root_entry img 0 0) = 1" "de_inode_no img (root_entry img 0 1) = 1"
    using e(1,4) by (simp_all add: re)
  show "numbering_ok img"
  proof (rule numbering_okI)
    show "sb_root_inode img = 1" by (rule builder_facts(19)[OF b])
    show "test_bit img 4096 0" by (rule d(13))
    fix dd i assume a: "dd < 12" "i < 64" "ino_direct img 12288 dd \<noteq> 0"
      "de_inode_no img (root_entry img dd i) \<noteq> 0"
    have d0: "dd = 0" using a(1,3) r(7)[of dd] by (cases "dd = 0") simp_all
    have "i < 2" using a(4) e(7)[of i] a(2) unfolding d0 re by (cases "i < 2") simp_all
    then consider "i = 0" | "i = 1" by linarith
    then have "de_inode_no img (root_entry img dd i) = 1"
      using e(1,4) unfolding d0 re by cases simp_all
    then show "unat (de_inode_no img (root_entry img dd i)) \<le> unat (sb_inode_count img) \<and>
       test_bit img 4096 (unat (de_inode_no img (root_entry img dd i)) - 1)"
      using d(9,13) by simp
  qed
qed

lemma numbering_preserved:
  assumes ok: "image_ok img" and nu: "numbering_ok img"
    and run: "mkfs_adder_main img fp src t1 t2 = Inr r"
    and H: "length (src_bytes src) + 4095 < 2 ^ 44"
  shows "numbering_ok (out_img r)"
    "test_bit (out_img r) 4096 (new_ino_idx r)"
    "\<exists>d \<in> {0..<12}. \<exists>i \<in> {0..<64}. ino_direct (out_img r) 12288 d \<noteq> 0 \<and>
        de_inode_no (out_img r) (root_entry (out_img r) d i) = of_nat (new_ino_idx r) + 1"
    "ino_mode (out_img r) (12288 + 128 * new_ino_idx r) = 0x8000"
proof -
  have H': "db_idxs r = [] \<or> length (src_bytes src) + 4095 < 2 ^ 44" using H by simp
  note E = adder_effects[OF ok run H']
  note d = image_okD[OF ok]
  note N = numbering_okD[OF nu]
  show "ino_mode (out_img r) (12288 + 128 * new_ino_idx r) = 0x8000" by (rule E(16))
  define out where "out = out_img r"
  define idx where "idx = new_ino_idx r"
  define drs where "drs = unat (sb_data_region_start img)"
  let ?cnt = "unat (sb_inode_count img)"
  define good where "good no \<longleftrightarrow> no \<noteq> 0 \<longrightarrow> unat no \<le> ?cnt \<and> test_bit out 4096 (unat no - 1)"
    for no :: u32
  have i32: "idx < 32768" using E(5) d(11) by (simp add: idx_def)
  have tb: "test_bit out 4096 idx" using E(8)[OF i32[unfolded idx_def]] by (simp add: out_def idx_def)
  then show "test_bit (out_img r) 4096 (new_ino_idx r)" by (simp add: out_def idx_def)
  show "\<exists>d \<in> {0..<12}. \<exists>i \<in> {0..<64}. ino_direct (out_img r) 12288 d \<noteq> 0 \<and>
        de_inode_no (out_img r) (root_entry (out_img r) d i) = of_nat (new_ino_idx r) + 1"
    using E(22) unfolding root_entry_def by (elim exE conjE) (auto intro!: bexI)
  have un: "unat (of_nat idx + 1 :: u32) = idx + 1"
    using i32 by (simp add: unat_word_ariths unat_of_nat)
  have gnew: "good (of_nat idx + 1)"
    using E(5)[folded idx_def] tb by (simp add: good_def un)
  have g0: "good 0" by (simp add: good_def)
  have cnt: "sb_inode_count out = sb_inode_count img"
    using same_outside_sb(5)[OF E(3)] by (auto simp: out_def)
  have rt: "sb_root_inode out = sb_root_inode img"
    unfolding sb_root_inode_def out_def
    by (rule same_outside_rd(4)[OF E(3)]) (auto simp: disjoint_iff)
  have fx: "\<forall>x \<in> set (db_idxs r). \<not> test_bit img 8192 x"
    using allocated_sorted(2)[OF ok run H] by (simp add: allocated_blocks_def)
  have gold: "good (de_inode_no out (root_entry img dd i))"
    if "dd < 12" "i < 64" "ino_direct img 12288 dd \<noteq> 0"
      "de_inode_no out (root_entry img dd i) = de_inode_no img (root_entry img dd i)" for dd i
  proof (cases "de_inode_no img (root_entry img dd i) = 0")
    case True
    then show ?thesis using that(4) g0 by simp
  next
    case False
    note n = N(3)[OF that(1-3) False]
    let ?no = "unat (de_inode_no img (root_entry img dd i))"
    have "0 < ?no" using False by (simp add: unat_gt_0)
    then have "?no - 1 < 32768" using n d(11) by linarith
    from E(8)[OF this] n have "test_bit out 4096 (?no - 1)" by (simp add: out_def)
    then show ?thesis using n that(4) by (simp add: good_def)
  qed
  have all: "good (de_inode_no out (root_entry out dd i))"
    if dd: "dd < 12" and i: "i < 64" and nz: "ino_direct out 12288 dd \<noteq> 0" for dd i
  proof (cases "find_slot img 12288 [0..<12]")
    case (Some e)
    note S = E(24)[OF Some, folded out_def idx_def drs_def]
    from find_slot_Some[OF Some] obtain d' i' where e: "d' < 12" "i' < 64"
      "ino_direct img 12288 d' \<noteq> 0" "e = root_entry img d' i'"
      by (auto simp: root_entry_def)
    have fr: "free_idx r = None" using S by simp
    have dir: "ino_direct out 12288 dd = ino_direct img 12288 dd"
      using E(23)[OF dd] fr by (simp add: out_def)
    then have nz': "ino_direct img 12288 dd \<noteq> 0" using nz by simp
    have re: "root_entry out dd i = root_entry img dd i" by (simp add: root_entry_def dir)
    show ?thesis
    proof (cases "root_entry img dd i = e")
      case True
      then show ?thesis using S gnew by (simp add: re)
    next
      case False
      note o = entry_outside[OF ok dd nz' i E(5) fx, folded drs_def idx_def]
      have "e mod 64 = 0" unfolding e(4) by (rule entry_outside(3)[OF ok e(1,3,2) E(5) fx])
      from aligned_apart[OF o(3) this False]
      have "{root_entry img dd i..<root_entry img dd i + 4} \<inter> {e..<e + 64} = {}"
        by (auto simp: disjoint_iff)
      with o(1) have "{root_entry img dd i..<root_entry img dd i + 4} \<inter>
        ({4096..<12416} \<union> {12288 + 128 * idx..<12288 + 128 * idx + 128} \<union>
         (\<Union>k\<in>{..<length (db_idxs r)}.
            {4096 * (drs + db_idxs r ! k)..<4096 * (drs + db_idxs r ! k) + 4096}) \<union>
         {e..<e + 64}) = {}"
        by (simp only: Int_Un_distrib Un_empty)
      from same_outside_rd(3)[OF conjunct2[OF conjunct2[OF S]] this]
      have "de_inode_no out (root_entry img dd i) = de_inode_no img (root_entry img dd i)"
        by (simp add: de_inode_no_def)
      from gold[OF dd i nz' this] show ?thesis by (simp add: re)
    qed
  next
    case None
    obtain f where f: "free_idx r = Some f" using E(25)[OF None] by blast
    note X = E(26)[OF f, folded out_def idx_def drs_def]
    note P = E(12)[OF f]
    from E(23)[OF dd, folded out_def drs_def]
    consider (same) "ino_direct out 12288 dd = ino_direct img 12288 dd"
      | (new) "unat (ino_direct out 12288 dd) = drs + f" using f by auto
    then show ?thesis
    proof cases
      case same
      then have nz': "ino_direct img 12288 dd \<noteq> 0" using nz by simp
      have re: "root_entry out dd i = root_entry img dd i" by (simp add: root_entry_def same)
      note o = entry_outside[OF ok dd nz' i E(5) fx, folded drs_def idx_def]
      have "\<not> test_bit img 8192 f" using P by simp
      from o(1) o(2)[OF this]
      have "{root_entry img dd i..<root_entry img dd i + 4} \<inter>
        ({4096..<12416} \<union> {12288 + 128 * idx..<12288 + 128 * idx + 128} \<union>
         (\<Union>k\<in>{..<length (db_idxs r)}.
            {4096 * (drs + db_idxs r ! k)..<4096 * (drs + db_idxs r ! k) + 4096}) \<union>
         {4096 * (drs + f)..<4096 * (drs + f) + 4096}) = {}"
        by (simp only: Int_Un_distrib Un_empty)
      from same_outside_rd(3)[OF conjunct2[OF conjunct2[OF X]] this]
      have "de_inode_no out (root_entry img dd i) = de_inode_no img (root_entry img dd i)"
        by (simp add: de_inode_no_def)
      from gold[OF dd i nz' this] show ?thesis by (simp add: re)
    next
      case new
      have "unat (4096 * ino_direct out 12288 dd) = 4096 * (drs + f)"
        using root_block_addr(1)[OF E(2)[folded out_def] dd nz] new by simp
      then have re: "root_entry out dd j = 4096 * (drs + f) + j * 64" for j
        by (simp add: root_entry_def)
      show ?thesis
      proof (cases "i = 0")
        case True
        have "de_inode_no out (root_entry out dd i) = of_nat idx + 1"
          unfolding re True using conjunct1[OF X] by simp
        then show ?thesis using gnew by simp
      next
        case False
        then have "de_inode_no out (4096 * (drs + f) + i * 64) = 0" using X i by simp
        then have "de_inode_no out (root_entry out dd i) = 0" unfolding re .
        then show ?thesis using g0 by simp
      qed
    qed
  qed
  have "numbering_ok out"
  proof (rule numbering_okI)
    show "sb_root_inode out = 1" using rt N(1) by simp
    have "(0::nat) < 32768" by simp
    from E(8)[OF this] show "test_bit out 4096 0" using N(2) by (simp add: out_def)
    fix dd i assume a: "dd < 12" "i < 64" "ino_direct out 12288 dd \<noteq> 0"
      "de_inode_no out (root_entry out dd i) \<noteq> 0"
    from all[OF a(1-3)] a(4)
    show "unat (de_inode_no out (root_entry out dd i)) \<le> unat (sb_inode_count out) \<and>
       test_bit out 4096 (unat (de_inode_no out (root_entry out dd i)) - 1)"
      by (simp add: good_def cnt)
  qed
  then show "numbering_ok (out_img r)" by (simp add: out_def)
qed

lemma numbering_sequence:
  assumes "image_ok img" "numbering_ok img"
    and "\<forall>q \<in> set qs. length (src_bytes (req_src q)) + 4095 < 2 ^ 44"
    and "add_files img qs = Some rs"
  shows "\<forall>r \<in> set rs. numbering_ok (out_img r) \<and>
           test_bit (out_img r) 4096 (new_ino_idx r) \<and>
           ino_mode (out_img r) (12288 + 128 * new_ino_idx r) = 0x8000 \<and>
           (\<exists>d \<in> {0..<12}. \<exists>i \<in> {0..<64}. ino_direct (out_img r) 12288 d \<noteq> 0 \<and>
              de_inode_no (out_img r) (root_entry (out_img r) d i) = of_nat (new_ino_idx r) + 1)"
  using assms
proof (induction qs arbitrary: img rs)
  case Nil
  then show ?case by simp
next
  case (Cons q qs)
  from Cons.prems(4) obtain r rs' where
    run: "mkfs_adder_main img (req_path q) (req_src q) (req_now_ino q) (req_now q) = Inr r"
    and rest: "add_files (out_img r) qs = Some rs'" and rs: "rs = r # rs'"
    by (auto split: sum.splits option.splits)
  have H: "length (src_bytes (req_src q)) + 4095 < 2 ^ 44" using Cons.prems(3) by simp
  then have H': "db_idxs r = [] \<or> length (src_bytes (req_src q)) + 4095 < 2 ^ 44" by simp
  note P = numbering_preserved[OF Cons.prems(1,2) run H]
  have ok': "image_ok (out_img r)" by (rule adder_effects(2)[OF Cons.prems(1) run H'])
  have "\<forall>q \<in> set qs. length (src_bytes (req_src q)) + 4095 < 2 ^ 44" using Cons.prems(3) by simp
  from Cons.IH[OF ok' P(1) this rest] P show ?case unfolding rs by simp
qed

text \<open>
  C9: inode numbers are 1-based, table and bitmap indices 0-based. In the image the
  builder writes, the superblock names inode 1 as the root, the root inode (a
  directory) sits at table index 0 with bitmap bit 0 set, and the entries \<open>.\<close> and \<open>..\<close>
  store the number 1. Every successful run of the adder (sources below
  \<open>2^44 - 4095\<close> bytes) that takes table index \<open>i\<close> sets bitmap bit \<open>i\<close>, writes the file's
  inode at index \<open>i\<close> and stores the number \<open>i + 1\<close> in the file's directory entry. In
  every image of the sequence, each occupied entry of the root directory stores a
  number \<open>no\<close> between 1 and \<open>inode_count\<close> whose inode, at index \<open>no - 1\<close>, is marked in
  use.
\<close>

theorem inode_numbering:
  assumes "mkfs_builder_main size_kib inodes now_sb now_root = Inr img"
    and "\<forall>q \<in> set qs. length (src_bytes (req_src q)) + 4095 < 2 ^ 44"
    and "add_files img qs = Some rs"
  shows "sb_root_inode img = 1 \<and>
     ino_mode img (unat (4096 * sb_inode_table_start img) + 128 * 0) = 0x4000 \<and>
     test_bit img (unat (4096 * sb_inode_bitmap_start img)) 0 \<and>
     de_inode_no img (root_entry img 0 0) = 1 \<and> de_inode_no img (root_entry img 0 1) = 1 \<and>
     numbering_ok img \<and>
     (\<forall>r \<in> set rs. numbering_ok (out_img r) \<and>
        test_bit (out_img r) (unat (4096 * sb_inode_bitmap_start img)) (new_ino_idx r) \<and>
        ino_mode (out_img r) (unat (4096 * sb_inode_table_start img) + 128 * new_ino_idx r) = 0x8000 \<and>
        (\<exists>d \<in> {0..<12}. \<exists>i \<in> {0..<64}. ino_direct (out_img r) 12288 d \<noteq> 0 \<and>
           de_inode_no (out_img r) (root_entry (out_img r) d i) = of_nat (new_ino_idx r) + 1))"
proof -
  note ok = builder_image_ok[OF assms(1)]
  note d = image_okD[OF ok]
  note B = builder_numbering[OF assms(1)]
  note S = numbering_sequence[OF ok B(1) assms(2,3)]
  have 1: "ino_mode img (unat (4096 * sb_inode_table_start img) + 128 * 0) = 0x4000"
    using builder_root_fields(1)[OF assms(1)] by (simp add: d(5))
  have 2: "test_bit img (unat (4096 * sb_inode_bitmap_start img)) 0"
    using d(13) by (simp add: d(3))
  show ?thesis
    unfolding d(3,5) using builder_facts(19)[OF assms(1)] 1[unfolded d(5)] 2[unfolded d(3)] B S
    by (intro conjI) assumption+
qed

theorem inode_numbering_witness:
  "mkfs_builder_main 1024 128 0 0 = Inr fresh_img \<and>
   (\<exists>r. add_files fresh_img [empty_req] = Some [r] \<and> new_ino_idx r = 1 \<and>
      sb_root_inode fresh_img = 1 \<and> ino_mode fresh_img 12288 = 0x4000 \<and>
      de_inode_no fresh_img (root_entry fresh_img 0 0) = 1 \<and>
      numbering_ok fresh_img \<and> numbering_ok (out_img r) \<and>
      test_bit (out_img r) 4096 1 \<and> ino_mode (out_img r) (12288 + 128) = 0x8000 \<and>
      (\<exists>d \<in> {0..<12}. \<exists>i \<in> {0..<64}. ino_direct (out_img r) 12288 d \<noteq> 0 \<and>
         de_inode_no (out_img r) (root_entry (out_img r) d i) = 2))"
proof -
  obtain r where r: "mkfs_adder_main fresh_img ''empty'' empty_src 0 0 = Inr r"
    "new_ino_idx r = 1"
    using dirfill_step[OF dirfill_fresh, of "''empty''" 0 0] by auto
  have a: "add_files fresh_img [empty_req] = Some [r]"
    using r(1) by (simp add: empty_req_def)
  have h: "\<forall>q \<in> set [empty_req]. length (src_bytes (req_src q)) + 4095 < 2 ^ 44"
    by (simp add: empty_req_def empty_src_def)
  from inode_numbering[OF fresh_img_eq h a]
  show ?thesis
    using fresh_img_eq a r(2) by (intro conjI exI[of _ r]) (simp_all add: image_okD(3,5)[OF fresh_ok])
qed

end
